theory Spec2Isabelle
  imports Complex_Main "HOL-Library.Char_ord" "HOL-Library.List_Lexorder" "HOL-Library.Log_Nat"
begin

section \<open>Fraud graph engine: constants\<close>

text \<open>
  Shallow embedding of \<^verbatim>\<open>src/phase3/fraud_engine.py\<close>.  A Python float is modelled as the
  rational number it denotes, and every float operation rounds its exact result to the
  nearest double (53-bit significand, ties to even).  The exponent range is not bounded:
  the numbers computed here are zero or far from overflow and from the subnormal range.
\<close>

subsection \<open>Double-precision rounding\<close>

text \<open>For \<open>x > 0\<close>, the exponent \<open>e\<close> with \<open>2^e \<le> x < 2^(e+1)\<close>.\<close>

definition expo :: "rat \<Rightarrow> int" where
  "expo x =
     (let p = fst (quotient_of x); q = snd (quotient_of x); d = bitlen p - bitlen q
      in if 2 powi d \<le> x then d else d - 1)"

text \<open>The nearest integer, ties to the even one.\<close>

definition rhe :: "rat \<Rightarrow> int" where
  "rhe y =
     (let f = \<lfloor>y\<rfloor>; d = y - of_int f
      in if d < 1 / 2 then f else if 1 / 2 < d then f + 1
         else if even f then f else f + 1)"

text \<open>The double nearest to \<open>x\<close>: a multiple of \<open>2^(e-52)\<close>, ties to the even multiple.\<close>

definition fl :: "rat \<Rightarrow> rat" where
  "fl x =
     (if x = 0 then 0
      else let u = 2 powi (expo \<bar>x\<bar> - 52)
           in sgn x * of_int (rhe (\<bar>x\<bar> / u)) * u)"

subsection \<open>Tables of the module\<close>

datatype flag_key =
    fw_shared_device
  | fw_shared_ip
  | fw_money_received_from_flagged
  | fw_money_sent_to_flagged
  | fw_shared_touchpoint
  | fw_transaction_loop
  | fw_high_velocity

text \<open>The dictionary \<^verbatim>\<open>FLAG_WEIGHTS\<close>: a fixed table over its seven literal keys.\<close>

fun FLAG_WEIGHTS :: "flag_key \<Rightarrow> nat" where
  "FLAG_WEIGHTS fw_shared_device = 30"
| "FLAG_WEIGHTS fw_shared_ip = 25"
| "FLAG_WEIGHTS fw_money_received_from_flagged = 20"
| "FLAG_WEIGHTS fw_money_sent_to_flagged = 20"
| "FLAG_WEIGHTS fw_shared_touchpoint = 15"
| "FLAG_WEIGHTS fw_transaction_loop = 40"
| "FLAG_WEIGHTS fw_high_velocity = 20"

definition flag_keys :: "flag_key list" where
  "flag_keys = [fw_shared_device, fw_shared_ip, fw_money_received_from_flagged,
                fw_money_sent_to_flagged, fw_shared_touchpoint, fw_transaction_loop,
                fw_high_velocity]"

datatype tier = CLEAN | WATCH | SUSPICIOUS | BLOCK

text \<open>\<^verbatim>\<open>THRESHOLDS\<close>, in the insertion order of the dictionary literal.\<close>

definition THRESHOLDS :: "(tier \<times> rat \<times> rat) list" where
  "THRESHOLDS = [(CLEAN, 0, 30), (WATCH, 31, 60), (SUSPICIOUS, 61, 90), (BLOCK, 91, 9999)]"

fun TIER_COLORS_HEX :: "tier \<Rightarrow> string" where
  "TIER_COLORS_HEX CLEAN = ''#00cc66''"
| "TIER_COLORS_HEX WATCH = ''#ffcc00''"
| "TIER_COLORS_HEX SUSPICIOUS = ''#ff8c00''"
| "TIER_COLORS_HEX BLOCK = ''#ff2244''"

fun TIER_COLORS_RGB :: "tier \<Rightarrow> nat list" where
  "TIER_COLORS_RGB CLEAN = [0, 204, 102, 220]"
| "TIER_COLORS_RGB WATCH = [255, 204, 0, 220]"
| "TIER_COLORS_RGB SUSPICIOUS = [255, 140, 0, 220]"
| "TIER_COLORS_RGB BLOCK = [255, 34, 68, 220]"

text \<open>The float literal \<^verbatim>\<open>0.30\<close>: the double nearest to three tenths.\<close>

definition CONTAMINATION_WEIGHT :: rat where
  "CONTAMINATION_WEIGHT = fl (3 / 10)"

text \<open>
  \<^verbatim>\<open>round(x, 1)\<close> on a float: the exact value of \<open>x\<close> is rounded to the nearest multiple
  of one tenth, ties to the even tenth, and the result is the double nearest to that
  decimal.
\<close>

definition py_round1 :: "rat \<Rightarrow> rat" where
  "py_round1 x = fl (of_int (rhe (x * 10)) / 10)"


section \<open>Source tables\<close>

record account =
  acc_id :: string
  acc_type :: string
  acc_holder :: string
  acc_ring :: string
  acc_city :: string
  acc_lat :: rat
  acc_lon :: rat

record identifier_row =
  ia_account_id :: string
  ia_identifier_type :: string
  ia_identifier_value :: string

record touchpoint_row =
  ta_account_id :: string
  ta_touchpoint_id :: string

record transaction =
  txn_id :: string
  sender :: string
  receiver :: string
  amount :: int
  timestamp :: int

record dataframes =
  accounts :: "account list"
  identifiers :: "identifier_row list"
  touchpoints :: "touchpoint_row list"
  transactions :: "transaction list"


section \<open>The multigraph\<close>

datatype edge_type = shared_ip | shared_device | shared_touchpoint | money_flow

record node_attrs =
  nd_node_type :: string
  nd_holder :: string
  nd_ring :: string
  nd_account_type :: string
  nd_city :: string
  nd_lat :: rat
  nd_lon :: rat

record edge =
  e_src :: string
  e_dst :: string
  e_edge_type :: edge_type
  e_amount :: "int option"
  e_timestamp :: "int option"
  e_txn_id :: "string option"

text \<open>
  A \<^verbatim>\<open>MultiDiGraph\<close>: the nodes in insertion order, each with its attribute dictionary
  (\<open>None\<close> is the empty dictionary of a node that an edge created), and the edges in
  insertion order.  Every reader below counts edges, tests for emptiness or collects
  sets, so the order in which networkx iterates the edges is not observable.
\<close>

record graph =
  g_nodes :: "(string \<times> node_attrs option) list"
  g_edges :: "edge list"

definition empty_graph :: graph where
  "empty_graph = \<lparr>g_nodes = [], g_edges = []\<rparr>"

definition node_ids :: "graph \<Rightarrow> string list" where
  "node_ids G = map fst (g_nodes G)"

text \<open>\<^verbatim>\<open>G.add_node(n, **attrs)\<close>: a new node is appended, an old one gets its attributes updated.\<close>

definition add_node :: "graph \<Rightarrow> string \<Rightarrow> node_attrs \<Rightarrow> graph" where
  "add_node G n a =
     (if n \<in> set (node_ids G)
      then G\<lparr>g_nodes := map (\<lambda>(m, b). if m = n then (m, Some a) else (m, b)) (g_nodes G)\<rparr>
      else G\<lparr>g_nodes := g_nodes G @ [(n, Some a)]\<rparr>)"

text \<open>
  \<^verbatim>\<open>G.add_edge(u, v, **data)\<close>: both endpoints become nodes (with no attributes) when
  they are not nodes yet, then the edge is appended; parallel edges are kept.
\<close>

definition touch_node :: "graph \<Rightarrow> string \<Rightarrow> graph" where
  "touch_node G n =
     (if n \<in> set (node_ids G) then G else G\<lparr>g_nodes := g_nodes G @ [(n, None)]\<rparr>)"

definition add_edge :: "graph \<Rightarrow> edge \<Rightarrow> graph" where
  "add_edge G e =
     (let G1 = touch_node G (e_src e); G2 = touch_node G1 (e_dst e)
      in G2\<lparr>g_edges := g_edges G2 @ [e]\<rparr>)"

definition shared_edge :: "edge_type \<Rightarrow> string \<Rightarrow> string \<Rightarrow> edge" where
  "shared_edge t a b =
     \<lparr>e_src = a, e_dst = b, e_edge_type = t, e_amount = None, e_timestamp = None,
      e_txn_id = None\<rparr>"

definition money_edge :: "transaction \<Rightarrow> edge" where
  "money_edge row =
     \<lparr>e_src = sender row, e_dst = receiver row, e_edge_type = money_flow,
      e_amount = Some (amount row), e_timestamp = Some (timestamp row),
      e_txn_id = Some (txn_id row)\<rparr>"


section \<open>Graph builder\<close>

text \<open>
  \<^verbatim>\<open>df.groupby(key)[col].apply(list)\<close>: one group per distinct key, the keys sorted, each
  group listing the column in row order.
\<close>

definition groupby_list :: "('r \<Rightarrow> string) \<Rightarrow> ('r \<Rightarrow> string) \<Rightarrow> 'r list \<Rightarrow> (string \<times> string list) list" where
  "groupby_list key col rows =
     map (\<lambda>k. (k, map col (filter (\<lambda>r. key r = k) rows))) (sort (remdups (map key rows)))"

text \<open>\<^verbatim>\<open>itertools.combinations(accs, 2)\<close>: the pairs of positions \<open>i < j\<close>, in order.\<close>

fun combinations2 :: "'a list \<Rightarrow> ('a \<times> 'a) list" where
  "combinations2 [] = []"
| "combinations2 (x # xs) = map (Pair x) xs @ combinations2 xs"

definition add_pair :: "edge_type \<Rightarrow> graph \<Rightarrow> string \<times> string \<Rightarrow> graph" where
  "add_pair t G ab =
     add_edge (add_edge G (shared_edge t (fst ab) (snd ab))) (shared_edge t (snd ab) (fst ab))"

definition add_groups :: "edge_type \<Rightarrow> graph \<Rightarrow> (string \<times> string list) list \<Rightarrow> graph" where
  "add_groups t G grps = foldl (\<lambda>G' grp. foldl (add_pair t) G' (combinations2 (snd grp))) G grps"

definition account_attrs :: "account \<Rightarrow> node_attrs" where
  "account_attrs row =
     \<lparr>nd_node_type = ''account'', nd_holder = acc_holder row, nd_ring = acc_ring row,
      nd_account_type = acc_type row, nd_city = acc_city row, nd_lat = acc_lat row,
      nd_lon = acc_lon row\<rparr>"

definition ip_grps :: "dataframes \<Rightarrow> (string \<times> string list) list" where
  "ip_grps dfs =
     groupby_list ia_identifier_value ia_account_id
       (filter (\<lambda>r. ia_identifier_type r = ''IP Address'') (identifiers dfs))"

definition dev_grps :: "dataframes \<Rightarrow> (string \<times> string list) list" where
  "dev_grps dfs =
     groupby_list ia_identifier_value ia_account_id
       (filter (\<lambda>r. ia_identifier_type r \<in> set [''Device MAC'', ''IMEI'']) (identifiers dfs))"

definition tp_grps :: "dataframes \<Rightarrow> (string \<times> string list) list" where
  "tp_grps dfs = groupby_list ta_touchpoint_id ta_account_id (touchpoints dfs)"

text \<open>
  \<^verbatim>\<open>build_graph(dfs)\<close>.  The tables are an explicit argument (the source loads its
  built-in sample tables when none are passed).  Nothing in the builder raises.
\<close>

definition build_graph :: "dataframes \<Rightarrow> graph" where
  "build_graph dfs =
     (let G0 = foldl (\<lambda>G row. add_node G (acc_id row) (account_attrs row)) empty_graph (accounts dfs);
          G1 = add_groups shared_ip G0 (ip_grps dfs);
          G2 = add_groups shared_device G1 (dev_grps dfs);
          G3 = add_groups shared_touchpoint G2 (tp_grps dfs)
      in foldl (\<lambda>G row. add_edge G (money_edge row)) G3 (transactions dfs))"


section \<open>Loop detector\<close>

text \<open>
  \<^verbatim>\<open>money_graph\<close> is a simple \<^verbatim>\<open>DiGraph\<close>: a repeated \<^verbatim>\<open>add_edge(u, v)\<close> changes nothing.
\<close>

definition money_graph :: "graph \<Rightarrow> string list \<Rightarrow> (string \<times> string) list" where
  "money_graph G account_ids =
     remdups (map (\<lambda>e. (e_src e, e_dst e))
       (filter (\<lambda>e. e_edge_type e = money_flow \<and> e_src e \<in> set account_ids
                     \<and> e_dst e \<in> set account_ids) (g_edges G)))"

definition mg_nodes :: "('a \<times> 'a) list \<Rightarrow> 'a list" where
  "mg_nodes E = remdups (concat (map (\<lambda>(u, v). [u, v]) E))"

text \<open>
  \<^verbatim>\<open>networkx.simple_cycles\<close> is library code; it is modelled by its contract: it yields the
  elementary circuits of the digraph, each a list of pairwise distinct nodes in which
  every node has an edge to the next and the last has an edge to the first.  The
  enumeration below builds the simple paths by length, extending at the front, and
  keeps those that close.  It lists a circuit once per rotation, where networkx lists
  it once; the caller only collects the nodes of the circuits of three or more nodes.
\<close>

definition extend_path :: "('a \<times> 'a) list \<Rightarrow> 'a list \<Rightarrow> 'a list list" where
  "extend_path E p =
     map (\<lambda>u. u # p) (filter (\<lambda>u. (u, hd p) \<in> set E \<and> u \<notin> set p) (mg_nodes E))"

fun simple_paths :: "('a \<times> 'a) list \<Rightarrow> nat \<Rightarrow> 'a list list" where
  "simple_paths E 0 = map (\<lambda>v. [v]) (mg_nodes E)"
| "simple_paths E (Suc n) = concat (map (extend_path E) (simple_paths E n))"

definition simple_cycles :: "('a \<times> 'a) list \<Rightarrow> 'a list list" where
  "simple_cycles E =
     filter (\<lambda>p. (last p, hd p) \<in> set E)
       (concat (map (simple_paths E) [0 ..< length (mg_nodes E)]))"

definition detect_loops :: "graph \<Rightarrow> string list \<Rightarrow> string list" where
  "detect_loops G account_ids =
     remdups (concat (filter (\<lambda>cycle. 3 \<le> length cycle)
                        (simple_cycles (money_graph G account_ids))))"


section \<open>Risk scorer\<close>

fun classify_from :: "(tier \<times> rat \<times> rat) list \<Rightarrow> rat \<Rightarrow> tier" where
  "classify_from [] score = BLOCK"
| "classify_from ((label, lo, hi) # rest) score =
     (if lo \<le> score \<and> score \<le> hi then label else classify_from rest score)"

definition classify :: "rat \<Rightarrow> tier" where
  "classify score = classify_from THRESHOLDS score"

text \<open>The text of a reported flag; the two money flags carry the number of transactions.\<close>

datatype flag_label =
    Shared_IP_Address
  | Shared_Device_IMEI
  | Shared_ATM_Portal
  | Received_money nat
  | Sent_money nat
  | Transaction_Loop_Detected
  | High_Velocity_Sending

record flag_entry =
  flag :: flag_label
  weight :: nat

record score_record =
  sr_account_id :: string
  sr_holder :: string
  sr_ring :: string
  sr_city :: string
  sr_lat :: rat
  sr_lon :: rat
  sr_account_type :: string
  own_score :: nat
  contamination :: rat
  final_score :: rat
  classification :: tier
  color_hex :: string
  color_rgb :: "nat list"
  flags :: "flag_entry list"
  in_loop :: bool

datatype py_error = KeyError string

definition account_ids_of :: "dataframes \<Rightarrow> string list" where
  "account_ids_of dfs = remdups (map acc_id (accounts dfs))"

text \<open>\<^verbatim>\<open>G.edges(acc, data=True)\<close> and \<^verbatim>\<open>G.in_edges(acc, data=True)\<close>.\<close>

definition out_edges :: "graph \<Rightarrow> string \<Rightarrow> edge list" where
  "out_edges G acc = filter (\<lambda>e. e_src e = acc) (g_edges G)"

definition in_edges :: "graph \<Rightarrow> string \<Rightarrow> edge list" where
  "in_edges G acc = filter (\<lambda>e. e_dst e = acc) (g_edges G)"

text \<open>The counter \<^verbatim>\<open>etc\<close>: out-edges and in-edges of the account, by edge type.\<close>

definition etc :: "graph \<Rightarrow> string \<Rightarrow> edge_type \<Rightarrow> nat" where
  "etc G acc t =
     length (filter (\<lambda>e. e_edge_type e = t) (out_edges G acc))
     + length (filter (\<lambda>e. e_edge_type e = t) (in_edges G acc))"

definition send_counts :: "transaction list \<Rightarrow> (string \<times> nat) list" where
  "send_counts txns =
     map (\<lambda>s. (s, length (filter (\<lambda>row. sender row = s) txns))) (sort (remdups (map sender txns)))"

definition high_velocity_senders :: "transaction list \<Rightarrow> string list" where
  "high_velocity_senders txns = map fst (filter (\<lambda>(s, n). 3 \<le> n) (send_counts txns))"

text \<open>One \<^verbatim>\<open>if\<close> of the scoring loop: \<^verbatim>\<open>score += w; flags.append({...})\<close>.\<close>

definition fire :: "bool \<Rightarrow> flag_key \<Rightarrow> flag_label \<Rightarrow> nat \<times> flag_entry list \<Rightarrow> nat \<times> flag_entry list" where
  "fire c k l st =
     (if c then (fst st + FLAG_WEIGHTS k, snd st @ [\<lparr>flag = l, weight = FLAG_WEIGHTS k\<rparr>])
      else st)"

definition in_money :: "graph \<Rightarrow> string \<Rightarrow> string list" where
  "in_money G acc = map e_src (filter (\<lambda>e. e_edge_type e = money_flow) (in_edges G acc))"

definition out_money :: "graph \<Rightarrow> string \<Rightarrow> string list" where
  "out_money G acc = map e_dst (filter (\<lambda>e. e_edge_type e = money_flow) (out_edges G acc))"

text \<open>The body of the first loop of \<^verbatim>\<open>compute_scores\<close>: the pair \<^verbatim>\<open>(score, flags)\<close>.\<close>

definition own_flags :: "graph \<Rightarrow> string list \<Rightarrow> string list \<Rightarrow> string \<Rightarrow> nat \<times> flag_entry list" where
  "own_flags G loop_accounts hv acc =
     (let s0 = (0, []);
          s1 = fire (0 < etc G acc shared_ip) fw_shared_ip Shared_IP_Address s0;
          s2 = fire (0 < etc G acc shared_device) fw_shared_device Shared_Device_IMEI s1;
          s3 = fire (0 < etc G acc shared_touchpoint) fw_shared_touchpoint Shared_ATM_Portal s2;
          s4 = fire (in_money G acc \<noteq> []) fw_money_received_from_flagged
                 (Received_money (length (in_money G acc))) s3;
          s5 = fire (out_money G acc \<noteq> []) fw_money_sent_to_flagged
                 (Sent_money (length (out_money G acc))) s4;
          s6 = fire (acc \<in> set loop_accounts) fw_transaction_loop Transaction_Loop_Detected s5
      in fire (acc \<in> set hv) fw_high_velocity High_Velocity_Sending s6)"

text \<open>The set \<^verbatim>\<open>nbrs\<close> of the second loop, as a list without repetition.\<close>

definition nbrs :: "graph \<Rightarrow> string list \<Rightarrow> string \<Rightarrow> string list" where
  "nbrs G account_ids acc =
     remdups (filter (\<lambda>v. v \<in> set account_ids) (map e_dst (out_edges G acc))
              @ filter (\<lambda>u. u \<in> set account_ids) (map e_src (in_edges G acc)))"

text \<open>
  The contamination of the second loop: the sum of the integer own scores, the true
  division by the number of neighbours (correctly rounded), the float product with
  \<^verbatim>\<open>CONTAMINATION_WEIGHT\<close>, and \<^verbatim>\<open>round(..., 1)\<close>.
\<close>

definition contamination_of :: "(string \<Rightarrow> nat) \<Rightarrow> string list \<Rightarrow> rat" where
  "contamination_of own ns =
     (if ns \<noteq> []
      then py_round1
             (fl (CONTAMINATION_WEIGHT * fl (of_nat (sum_list (map own ns)) / of_nat (length ns))))
      else 0)"

text \<open>\<^verbatim>\<open>nd.get(key, default)\<close> on the attribute dictionary of a node.\<close>

definition nd_get :: "node_attrs option \<Rightarrow> (node_attrs \<Rightarrow> 'a) \<Rightarrow> 'a \<Rightarrow> 'a" where
  "nd_get nd f dflt = (case nd of None \<Rightarrow> dflt | Some a \<Rightarrow> f a)"

definition result_of :: "graph \<Rightarrow> string list \<Rightarrow> string list \<Rightarrow> string list \<Rightarrow> node_attrs option \<Rightarrow> string \<Rightarrow> score_record" where
  "result_of G account_ids loop_accounts hv nd acc =
     (let own = (\<lambda>a. fst (own_flags G loop_accounts hv a));
          c = contamination_of own (nbrs G account_ids acc);
          final = py_round1 (fl (of_nat (own acc) + c));
          cl = classify final
      in \<lparr>sr_account_id = acc, sr_holder = nd_get nd nd_holder [],
          sr_ring = nd_get nd nd_ring [], sr_city = nd_get nd nd_city [],
          sr_lat = nd_get nd nd_lat 0, sr_lon = nd_get nd nd_lon 0,
          sr_account_type = nd_get nd nd_account_type [],
          own_score = own acc, contamination = c, final_score = final,
          classification = cl, color_hex = TIER_COLORS_HEX cl,
          color_rgb = TIER_COLORS_RGB cl, flags = snd (own_flags G loop_accounts hv acc),
          in_loop = (acc \<in> set loop_accounts)\<rparr>)"

text \<open>
  \<^verbatim>\<open>compute_scores(G, dfs)\<close>.  The set \<^verbatim>\<open>account_ids\<close> is the list of distinct ids (its
  order stands for the iteration order of the Python set); the result dictionary is the
  list of its items.  \<^verbatim>\<open>G.nodes[acc]\<close> raises \<^verbatim>\<open>KeyError\<close> for an account that is not a node
  of \<open>G\<close>, which loses the whole table.
\<close>

definition compute_scores :: "graph \<Rightarrow> dataframes \<Rightarrow> py_error + (string \<times> score_record) list" where
  "compute_scores G dfs =
     (let account_ids = account_ids_of dfs;
          loop_accounts = detect_loops G account_ids;
          hv = high_velocity_senders (transactions dfs)
      in case find (\<lambda>acc. acc \<notin> set (node_ids G)) account_ids of
           Some acc \<Rightarrow> Inl (KeyError acc)
         | None \<Rightarrow>
             Inr (map (\<lambda>acc. (acc, result_of G account_ids loop_accounts hv
                                      (the (map_of (g_nodes G) acc)) acc)) account_ids))"

text \<open>
  \<^verbatim>\<open>full_pipeline\<close>, on given tables: the graph and the score table (the arcs and the
  ring clusters it also returns are rendering data).
\<close>

definition full_pipeline :: "dataframes \<Rightarrow> graph \<times> (py_error + (string \<times> score_record) list)" where
  "full_pipeline dfs = (let G = build_graph dfs in (G, compute_scores G dfs))"

section \<open>Notions used in the statements\<close>

text \<open>
  The edges that one pair of a group and that the groups of one table contribute, and the
  whole edge list of the builder; the graph after the account loop alone.
\<close>

definition pair_edges :: "edge_type \<Rightarrow> string \<times> string \<Rightarrow> edge list" where
  "pair_edges t ab = [shared_edge t (fst ab) (snd ab), shared_edge t (snd ab) (fst ab)]"

definition group_edges :: "edge_type \<Rightarrow> (string \<times> string list) list \<Rightarrow> edge list" where
  "group_edges t grps =
     concat (map (\<lambda>grp. concat (map (pair_edges t) (combinations2 (snd grp)))) grps)"

definition all_edges :: "dataframes \<Rightarrow> edge list" where
  "all_edges dfs =
     group_edges shared_ip (ip_grps dfs) @ group_edges shared_device (dev_grps dfs)
     @ group_edges shared_touchpoint (tp_grps dfs) @ map money_edge (transactions dfs)"

definition account_nodes :: "dataframes \<Rightarrow> graph" where
  "account_nodes dfs =
     foldl (\<lambda>G row. add_node G (acc_id row) (account_attrs row)) empty_graph (accounts dfs)"

definition endpoints :: "edge list \<Rightarrow> string set" where
  "endpoints es = e_src ` set es \<union> e_dst ` set es"

text \<open>The record that \<^verbatim>\<open>compute_scores\<close> stores for one account, and the whole table.\<close>

definition score_for :: "graph \<Rightarrow> dataframes \<Rightarrow> string \<Rightarrow> score_record" where
  "score_for G dfs acc =
     result_of G (account_ids_of dfs) (detect_loops G (account_ids_of dfs))
       (high_velocity_senders (transactions dfs)) (the (map_of (g_nodes G) acc)) acc"

definition score_table :: "graph \<Rightarrow> dataframes \<Rightarrow> (string \<times> score_record) list" where
  "score_table G dfs = map (\<lambda>acc. (acc, score_for G dfs acc)) (account_ids_of dfs)"

definition own_score_in :: "(string \<times> score_record) list \<Rightarrow> string \<Rightarrow> nat" where
  "own_score_in tbl n = (case map_of tbl n of Some r \<Rightarrow> own_score r | None \<Rightarrow> 0)"

text \<open>
  A directed money-flow cycle through listed accounts: pairwise distinct nodes, each with a
  \<^verbatim>\<open>money_flow\<close> edge to the next, the last one to the first.
\<close>

definition money_cycle :: "graph \<Rightarrow> string list \<Rightarrow> string list \<Rightarrow> bool" where
  "money_cycle G account_ids c \<longleftrightarrow>
     c \<noteq> [] \<and> distinct c \<and>
     (\<forall>i<length c. \<exists>e\<in>set (g_edges G).
         e_edge_type e = money_flow \<and> e_src e = c ! i \<and> e_dst e = c ! (Suc i mod length c)
         \<and> e_src e \<in> set account_ids \<and> e_dst e \<in> set account_ids)"

text \<open>
  The account-type neighbours of an account: the listed accounts at the other end of an
  edge of any type that leaves or enters it.
\<close>

definition neighbours :: "graph \<Rightarrow> string list \<Rightarrow> string \<Rightarrow> string set" where
  "neighbours G account_ids acc =
     {n \<in> set account_ids. \<exists>e\<in>set (g_edges G).
        (e_src e = acc \<and> e_dst e = n) \<or> (e_dst e = acc \<and> e_src e = n)}"

text \<open>The tables without the transactions whose sender is their receiver.\<close>

definition without_self_transactions :: "dataframes \<Rightarrow> dataframes" where
  "without_self_transactions dfs =
     dfs\<lparr>transactions := filter (\<lambda>row. sender row \<noteq> receiver row) (transactions dfs)\<rparr>"

text \<open>
  The ids that the assignment tables link to a second row: the account of an IP-address
  row whose value a second IP-address row has, the account of a device row (Device MAC or
  IMEI) whose value a second device row has, and the account of a touchpoint row whose
  touchpoint a second row has.  The count includes the row itself.
\<close>

definition linked_ids :: "dataframes \<Rightarrow> string set" where
  "linked_ids dfs =
     set (map ia_account_id
       (filter (\<lambda>r. ia_identifier_type r = ''IP Address''
           \<and> 2 \<le> length (filter (\<lambda>r'. ia_identifier_type r' = ''IP Address''
                                        \<and> ia_identifier_value r' = ia_identifier_value r)
                              (identifiers dfs)))
         (identifiers dfs)))
     \<union> set (map ia_account_id
       (filter (\<lambda>r. ia_identifier_type r \<in> set [''Device MAC'', ''IMEI'']
           \<and> 2 \<le> length (filter (\<lambda>r'. ia_identifier_type r' \<in> set [''Device MAC'', ''IMEI'']
                                        \<and> ia_identifier_value r' = ia_identifier_value r)
                              (identifiers dfs)))
         (identifiers dfs)))
     \<union> set (map ta_account_id
       (filter (\<lambda>r. 2 \<le> length (filter (\<lambda>r'. ta_touchpoint_id r' = ta_touchpoint_id r)
                                    (touchpoints dfs)))
         (touchpoints dfs)))"

text \<open>
  The rule table of the flag scorer, as the specification gives it: when each of the seven
  flags fires for an account.
\<close>

fun flag_fires :: "graph \<Rightarrow> dataframes \<Rightarrow> string \<Rightarrow> flag_key \<Rightarrow> bool" where
  "flag_fires G dfs acc fw_shared_device \<longleftrightarrow>
     (\<exists>e\<in>set (g_edges G). e_edge_type e = shared_device \<and> (e_src e = acc \<or> e_dst e = acc))"
| "flag_fires G dfs acc fw_shared_ip \<longleftrightarrow>
     (\<exists>e\<in>set (g_edges G). e_edge_type e = shared_ip \<and> (e_src e = acc \<or> e_dst e = acc))"
| "flag_fires G dfs acc fw_transaction_loop \<longleftrightarrow>
     acc \<in> set (detect_loops G (account_ids_of dfs))"
| "flag_fires G dfs acc fw_money_received_from_flagged \<longleftrightarrow>
     (\<exists>e\<in>set (g_edges G). e_edge_type e = money_flow \<and> e_dst e = acc)"
| "flag_fires G dfs acc fw_money_sent_to_flagged \<longleftrightarrow>
     (\<exists>e\<in>set (g_edges G). e_edge_type e = money_flow \<and> e_src e = acc)"
| "flag_fires G dfs acc fw_shared_touchpoint \<longleftrightarrow>
     (\<exists>e\<in>set (g_edges G). e_edge_type e = shared_touchpoint \<and> (e_src e = acc \<or> e_dst e = acc))"
| "flag_fires G dfs acc fw_high_velocity \<longleftrightarrow>
     3 \<le> length (filter (\<lambda>row. sender row = acc) (transactions dfs))"

text \<open>The flag that a reported text belongs to, whatever transaction count it carries.\<close>

fun flag_kind :: "flag_label \<Rightarrow> flag_key" where
  "flag_kind Shared_IP_Address = fw_shared_ip"
| "flag_kind Shared_Device_IMEI = fw_shared_device"
| "flag_kind Shared_ATM_Portal = fw_shared_touchpoint"
| "flag_kind (Received_money n) = fw_money_received_from_flagged"
| "flag_kind (Sent_money n) = fw_money_sent_to_flagged"
| "flag_kind Transaction_Loop_Detected = fw_transaction_loop"
| "flag_kind High_Velocity_Sending = fw_high_velocity"

text \<open>
  The text reported for a flag: the money flags carry the number of money-flow edges that
  enter, or leave, the account.
\<close>

fun reported_label :: "graph \<Rightarrow> string \<Rightarrow> flag_key \<Rightarrow> flag_label" where
  "reported_label G acc fw_shared_ip = Shared_IP_Address"
| "reported_label G acc fw_shared_device = Shared_Device_IMEI"
| "reported_label G acc fw_shared_touchpoint = Shared_ATM_Portal"
| "reported_label G acc fw_money_received_from_flagged =
     Received_money (length (filter (\<lambda>e. e_edge_type e = money_flow \<and> e_dst e = acc) (g_edges G)))"
| "reported_label G acc fw_money_sent_to_flagged =
     Sent_money (length (filter (\<lambda>e. e_edge_type e = money_flow \<and> e_src e = acc) (g_edges G)))"
| "reported_label G acc fw_transaction_loop = Transaction_Loop_Detected"
| "reported_label G acc fw_high_velocity = High_Velocity_Sending"

text \<open>The seven flags in the order in which the scores list them.\<close>

definition report_order :: "flag_key list" where
  "report_order = [fw_shared_ip, fw_shared_device, fw_shared_touchpoint,
                   fw_money_received_from_flagged, fw_money_sent_to_flagged,
                   fw_transaction_loop, fw_high_velocity]"

section \<open>Sample tables\<close>

definition acct :: "string \<Rightarrow> account" where
  "acct i = \<lparr>acc_id = i, acc_type = ''UPI ID'', acc_holder = ''H'', acc_ring = ''R'',
             acc_city = ''C'', acc_lat = 0, acc_lon = 0\<rparr>"

definition ident :: "string \<Rightarrow> string \<Rightarrow> string \<Rightarrow> identifier_row" where
  "ident a t v = \<lparr>ia_account_id = a, ia_identifier_type = t, ia_identifier_value = v\<rparr>"

definition tp :: "string \<Rightarrow> string \<Rightarrow> touchpoint_row" where
  "tp a t = \<lparr>ta_account_id = a, ta_touchpoint_id = t\<rparr>"

definition txn :: "string \<Rightarrow> string \<Rightarrow> string \<Rightarrow> transaction" where
  "txn i s r = \<lparr>txn_id = i, sender = s, receiver = r, amount = 100, timestamp = 1\<rparr>"

text \<open>Two accounts at one touchpoint, and a third that sends money to the first.\<close>

definition flow_tables :: dataframes where
  "flow_tables =
     \<lparr>accounts = [acct ''A'', acct ''B'', acct ''C''],
      identifiers = [],
      touchpoints = [tp ''A'' ''T'', tp ''B'' ''T''],
      transactions = [txn ''t1'' ''C'' ''A'']\<rparr>"

text \<open>
  A three-party ring \<open>A \<rightarrow> B \<rightarrow> C \<rightarrow> A\<close> with shared identifiers, in which \<open>A\<close> sends three
  times, beside a two-party back-and-forth \<open>D \<leftrightarrow> E\<close>.
\<close>

definition ring_tables :: dataframes where
  "ring_tables =
     \<lparr>accounts = [acct ''A'', acct ''B'', acct ''C'', acct ''D'', acct ''E''],
      identifiers = [ident ''A'' ''IP Address'' ''i1'', ident ''B'' ''IP Address'' ''i1'',
                     ident ''A'' ''Device MAC'' ''m1'', ident ''C'' ''IMEI'' ''m1''],
      touchpoints = [tp ''A'' ''T'', tp ''B'' ''T''],
      transactions = [txn ''t1'' ''A'' ''B'', txn ''t2'' ''B'' ''C'', txn ''t3'' ''C'' ''A'',
                      txn ''t4'' ''A'' ''B'', txn ''t5'' ''A'' ''C'', txn ''t6'' ''D'' ''E'',
                      txn ''t7'' ''E'' ''D'']\<rparr>"

text \<open>A transaction whose sender is not a listed account.\<close>

definition dangling_tables :: dataframes where
  "dangling_tables =
     \<lparr>accounts = [acct ''A''], identifiers = [], touchpoints = [],
      transactions = [txn ''t1'' ''X'' ''A'']\<rparr>"

text \<open>A transaction from an account to itself.\<close>

definition self_tables :: dataframes where
  "self_tables =
     \<lparr>accounts = [acct ''A''], identifiers = [], touchpoints = [],
      transactions = [txn ''t1'' ''A'' ''A'']\<rparr>"

text \<open>An identifier assignment of an unlisted id that shares its value with nobody.\<close>

definition unshared_tables :: dataframes where
  "unshared_tables =
     \<lparr>accounts = [acct ''A''], identifiers = [ident ''X'' ''IP Address'' ''i1''],
      touchpoints = [], transactions = []\<rparr>"

text \<open>
  Three assignment rows on one identifier value: the unlisted X and the listed A as IP
  addresses, the unlisted Y as a device.
\<close>

definition linked_tables :: dataframes where
  "linked_tables =
     \<lparr>accounts = [acct ''A''],
      identifiers = [ident ''X'' ''IP Address'' ''w'', ident ''A'' ''IP Address'' ''w'',
                     ident ''Y'' ''Device MAC'' ''w''],
      touchpoints = [], transactions = []\<rparr>"

text \<open>Ten neighbours whose own scores, one of 50 and nine of 35, have the mean 36.5.\<close>

definition tie_own :: "string \<Rightarrow> nat" where
  "tie_own n = (if n = ''K'' then 50 else 35)"

definition tie_nbrs :: "string list" where
  "tie_nbrs = [''K'', ''L'', ''M'', ''N'', ''O'', ''P'', ''Q'', ''R'', ''S'', ''T'']"


section \<open>Facts about the builder\<close>

lemma node_ids_edges_update: "node_ids (G\<lparr>g_edges := es\<rparr>) = node_ids G"
  by (simp add: node_ids_def)

lemma g_edges_touch_node: "g_edges (touch_node G n) = g_edges G"
  by (simp add: touch_node_def)

lemma node_ids_touch_node: "set (node_ids (touch_node G n)) = insert n (set (node_ids G))"
  by (auto simp: touch_node_def node_ids_def)

lemma g_edges_add_edge: "g_edges (add_edge G e) = g_edges G @ [e]"
  by (simp add: add_edge_def Let_def g_edges_touch_node)

lemma node_ids_add_edge:
  "set (node_ids (add_edge G e)) = set (node_ids G) \<union> {e_src e, e_dst e}"
  by (auto simp: add_edge_def Let_def node_ids_edges_update node_ids_touch_node)

lemma g_edges_add_node: "g_edges (add_node G n a) = g_edges G"
  by (simp add: add_node_def)

lemma node_ids_add_node: "set (node_ids (add_node G n a)) = insert n (set (node_ids G))"
  by (force simp: add_node_def node_ids_def split: if_splits)

lemma g_edges_foldl_add_edge: "g_edges (foldl add_edge G es) = g_edges G @ es"
  by (induction es arbitrary: G) (simp_all add: g_edges_add_edge)

lemma node_ids_foldl_add_edge:
  "set (node_ids (foldl add_edge G es)) = set (node_ids G) \<union> endpoints es"
  by (induction es arbitrary: G) (auto simp: node_ids_add_edge endpoints_def)

lemma foldl_add_pair:
  "foldl (add_pair t) G ps = foldl add_edge G (concat (map (pair_edges t) ps))"
  by (induction ps arbitrary: G) (simp_all add: add_pair_def pair_edges_def)

lemma add_groups_eq: "add_groups t G grps = foldl add_edge G (group_edges t grps)"
  unfolding add_groups_def group_edges_def
  by (induction grps arbitrary: G) (simp_all add: foldl_add_pair)

lemma build_graph_eq: "build_graph dfs = foldl add_edge (account_nodes dfs) (all_edges dfs)"
  by (simp add: build_graph_def Let_def add_groups_eq all_edges_def account_nodes_def foldl_map)

lemma g_edges_foldl_add_node:
  "g_edges (foldl (\<lambda>G row. add_node G (acc_id row) (account_attrs row)) G rows) = g_edges G"
  by (induction rows arbitrary: G) (simp_all add: g_edges_add_node)

lemma node_ids_foldl_add_node:
  "set (node_ids (foldl (\<lambda>G row. add_node G (acc_id row) (account_attrs row)) G rows))
     = set (node_ids G) \<union> acc_id ` set rows"
  by (induction rows arbitrary: G) (auto simp: node_ids_add_node)

lemma g_edges_account_nodes: "g_edges (account_nodes dfs) = []"
  by (simp add: account_nodes_def g_edges_foldl_add_node empty_graph_def)

lemma node_ids_account_nodes: "set (node_ids (account_nodes dfs)) = acc_id ` set (accounts dfs)"
  by (simp add: account_nodes_def node_ids_foldl_add_node) (simp add: empty_graph_def node_ids_def)

lemma g_edges_build_graph: "g_edges (build_graph dfs) = all_edges dfs"
  by (simp add: build_graph_eq g_edges_foldl_add_edge g_edges_account_nodes)

lemma node_ids_build_graph:
  "set (node_ids (build_graph dfs)) = acc_id ` set (accounts dfs) \<union> endpoints (all_edges dfs)"
  by (simp add: build_graph_eq node_ids_foldl_add_edge node_ids_account_nodes)

lemma g_nodes_touch_node:
  "set (g_nodes (touch_node G n)) \<subseteq> set (g_nodes G) \<union> {(n, None)}"
  by (auto simp: touch_node_def)

lemma g_nodes_add_edge:
  "set (g_nodes (add_edge G e)) \<subseteq> set (g_nodes G) \<union> {(e_src e, None), (e_dst e, None)}"
  using g_nodes_touch_node[of G "e_src e"] g_nodes_touch_node[of "touch_node G (e_src e)" "e_dst e"]
  by (auto simp: add_edge_def Let_def)

lemma g_nodes_foldl_add_edge:
  "set (g_nodes (foldl add_edge G es)) \<subseteq> set (g_nodes G) \<union> (\<lambda>n. (n, None)) ` endpoints es"
proof (induction es arbitrary: G)
  case Nil
  then show ?case by simp
next
  case (Cons e es)
  have "set (g_nodes (foldl add_edge (add_edge G e) es))
          \<subseteq> set (g_nodes (add_edge G e)) \<union> (\<lambda>n. (n, None)) ` endpoints es"
    by (rule Cons.IH)
  with g_nodes_add_edge[of G e] show ?case
    by (auto simp: endpoints_def)
qed

lemma dangling_node_no_attrs:
  assumes "x \<in> set (node_ids (build_graph dfs))" "x \<notin> acc_id ` set (accounts dfs)"
  shows "(x, None) \<in> set (g_nodes (build_graph dfs))"
    and "\<forall>a. (x, Some a) \<notin> set (g_nodes (build_graph dfs))"
proof -
  have sub: "set (g_nodes (build_graph dfs))
               \<subseteq> set (g_nodes (account_nodes dfs)) \<union> (\<lambda>n. (n, None)) ` endpoints (all_edges dfs)"
    unfolding build_graph_eq by (rule g_nodes_foldl_add_edge)
  have notacc: "\<And>b. (x, b) \<notin> set (g_nodes (account_nodes dfs))"
  proof
    fix b assume "(x, b) \<in> set (g_nodes (account_nodes dfs))"
    then have "x \<in> set (node_ids (account_nodes dfs))"
      by (force simp: node_ids_def)
    with assms(2) show False by (simp add: node_ids_account_nodes)
  qed
  from assms(1) obtain b where b: "(x, b) \<in> set (g_nodes (build_graph dfs))"
    by (auto simp: node_ids_def)
  with sub notacc have "b = None" by auto
  with b show "(x, None) \<in> set (g_nodes (build_graph dfs))" by simp
  show "\<forall>a. (x, Some a) \<notin> set (g_nodes (build_graph dfs))"
    using sub notacc by auto
qed

lemma group_edges_sym:
  assumes "e \<in> set (group_edges t grps)"
  shows "e_edge_type e = t \<and> shared_edge t (e_dst e) (e_src e) \<in> set (group_edges t grps)"
proof -
  from assms obtain grp ab where ab: "grp \<in> set grps" "ab \<in> set (combinations2 (snd grp))"
    and e: "e \<in> set (pair_edges t ab)"
    by (auto simp: group_edges_def)
  from e have "e_edge_type e = t \<and> shared_edge t (e_dst e) (e_src e) \<in> set (pair_edges t ab)"
    by (auto simp: pair_edges_def shared_edge_def)
  with ab show ?thesis
    by (auto simp: group_edges_def)
qed

lemma money_edge_type: "e \<in> set (map money_edge txns) \<Longrightarrow> e_edge_type e = money_flow"
  by (auto simp: money_edge_def)

lemma shared_edges_sym:
  assumes "e \<in> set (g_edges (build_graph dfs))" "e_edge_type e \<noteq> money_flow"
  shows "shared_edge (e_edge_type e) (e_dst e) (e_src e) \<in> set (g_edges (build_graph dfs))"
proof -
  from assms money_edge_type have
    "e \<in> set (group_edges shared_ip (ip_grps dfs)) \<or> e \<in> set (group_edges shared_device (dev_grps dfs))
     \<or> e \<in> set (group_edges shared_touchpoint (tp_grps dfs))"
    unfolding g_edges_build_graph all_edges_def by auto
  then show ?thesis
    unfolding g_edges_build_graph all_edges_def
    using group_edges_sym by fastforce
qed


section \<open>Facts about the score table and the own score\<close>

lemma compute_scores_Inr:
  "compute_scores G dfs = Inr tbl \<longleftrightarrow>
     set (account_ids_of dfs) \<subseteq> set (node_ids G) \<and> tbl = score_table G dfs"
proof (cases "find (\<lambda>acc. acc \<notin> set (node_ids G)) (account_ids_of dfs)")
  case None
  then have "set (account_ids_of dfs) \<subseteq> set (node_ids G)"
    by (auto simp: find_None_iff)
  with None show ?thesis
    by (auto simp: compute_scores_def Let_def score_table_def score_for_def)
next
  case (Some a)
  then have "a \<in> set (account_ids_of dfs)" "a \<notin> set (node_ids G)"
    by (auto simp: find_Some_iff)
  with Some show ?thesis
    by (auto simp: compute_scores_def Let_def)
qed

lemma set_account_ids_of: "set (account_ids_of dfs) = acc_id ` set (accounts dfs)"
  by (simp add: account_ids_of_def)

lemma compute_scores_build_graph:
  "compute_scores (build_graph dfs) dfs = Inr (score_table (build_graph dfs) dfs)"
  by (simp add: compute_scores_Inr node_ids_build_graph set_account_ids_of)

lemma score_table_mem:
  "(acc, r) \<in> set (score_table G dfs) \<longleftrightarrow> acc \<in> set (account_ids_of dfs) \<and> r = score_for G dfs acc"
  by (auto simp: score_table_def)

lemma score_table_keys: "map fst (score_table G dfs) = account_ids_of dfs"
  by (simp add: score_table_def comp_def)

lemma fst_fire: "fst (fire c k l st) = fst st + (if c then FLAG_WEIGHTS k else 0)"
  by (simp add: fire_def)

lemma snd_fire:
  "snd (fire c k l st) = snd st @ (if c then [\<lparr>flag = l, weight = FLAG_WEIGHTS k\<rparr>] else [])"
  by (simp add: fire_def)

lemma own_flags_fst:
  "fst (own_flags G la hv acc) =
     (if 0 < etc G acc shared_ip then 25 else 0)
   + (if 0 < etc G acc shared_device then 30 else 0)
   + (if 0 < etc G acc shared_touchpoint then 15 else 0)
   + (if in_money G acc \<noteq> [] then 20 else 0)
   + (if out_money G acc \<noteq> [] then 20 else 0)
   + (if acc \<in> set la then 40 else 0)
   + (if acc \<in> set hv then 20 else 0)"
  unfolding own_flags_def Let_def fst_fire by simp

lemma own_flags_snd:
  "snd (own_flags G la hv acc) =
     (if 0 < etc G acc shared_ip then [\<lparr>flag = Shared_IP_Address, weight = 25\<rparr>] else [])
   @ (if 0 < etc G acc shared_device then [\<lparr>flag = Shared_Device_IMEI, weight = 30\<rparr>] else [])
   @ (if 0 < etc G acc shared_touchpoint then [\<lparr>flag = Shared_ATM_Portal, weight = 15\<rparr>] else [])
   @ (if in_money G acc \<noteq> [] then [\<lparr>flag = Received_money (length (in_money G acc)), weight = 20\<rparr>] else [])
   @ (if out_money G acc \<noteq> [] then [\<lparr>flag = Sent_money (length (out_money G acc)), weight = 20\<rparr>] else [])
   @ (if acc \<in> set la then [\<lparr>flag = Transaction_Loop_Detected, weight = 40\<rparr>] else [])
   @ (if acc \<in> set hv then [\<lparr>flag = High_Velocity_Sending, weight = 20\<rparr>] else [])"
  unfolding own_flags_def Let_def snd_fire by simp

lemma fire_sum:
  "fst st = sum_list (map weight (snd st)) \<Longrightarrow>
   fst (fire c k l st) = sum_list (map weight (snd (fire c k l st)))"
  by (simp add: fire_def)

lemma own_flags_sum:
  "fst (own_flags G la hv acc) = sum_list (map weight (snd (own_flags G la hv acc)))"
  unfolding own_flags_def Let_def by (intro fire_sum) simp

lemma own_flags_distinct: "distinct (map flag (snd (own_flags G la hv acc)))"
  unfolding own_flags_snd by simp

lemma own_flags_le: "fst (own_flags G la hv acc) \<le> 170"
  unfolding own_flags_fst by simp

lemma own_flags_170:
  "fst (own_flags G la hv acc) = 170 \<longleftrightarrow> length (snd (own_flags G la hv acc)) = 7"
  unfolding own_flags_fst own_flags_snd by (simp split: if_splits)

lemma etc_pos:
  "0 < etc G acc t \<longleftrightarrow>
     (\<exists>e\<in>set (g_edges G). e_edge_type e = t \<and> (e_src e = acc \<or> e_dst e = acc))"
  by (auto simp: etc_def out_edges_def in_edges_def filter_empty_conv simp flip: length_greater_0_conv)

lemma in_money_nonempty:
  "in_money G acc \<noteq> [] \<longleftrightarrow> (\<exists>e\<in>set (g_edges G). e_edge_type e = money_flow \<and> e_dst e = acc)"
  by (auto simp: in_money_def in_edges_def filter_empty_conv)

lemma out_money_nonempty:
  "out_money G acc \<noteq> [] \<longleftrightarrow> (\<exists>e\<in>set (g_edges G). e_edge_type e = money_flow \<and> e_src e = acc)"
  by (auto simp: out_money_def out_edges_def filter_empty_conv)

lemma length_in_money:
  "length (in_money G acc) = length (filter (\<lambda>e. e_edge_type e = money_flow \<and> e_dst e = acc) (g_edges G))"
  by (simp add: in_money_def in_edges_def conj_commute)

lemma length_out_money:
  "length (out_money G acc) = length (filter (\<lambda>e. e_edge_type e = money_flow \<and> e_src e = acc) (g_edges G))"
  by (simp add: out_money_def out_edges_def conj_commute)

lemma high_velocity_iff:
  "acc \<in> set (high_velocity_senders txns) \<longleftrightarrow> 3 \<le> length (filter (\<lambda>row. sender row = acc) txns)"
proof -
  have "3 \<le> length (filter (\<lambda>row. sender row = acc) txns) \<Longrightarrow> acc \<in> sender ` set txns"
  proof -
    assume "3 \<le> length (filter (\<lambda>row. sender row = acc) txns)"
    then have "filter (\<lambda>row. sender row = acc) txns \<noteq> []" by auto
    then show ?thesis by (auto simp: filter_empty_conv)
  qed
  then show ?thesis
    by (auto simp: high_velocity_senders_def send_counts_def image_iff)
qed

lemma own_score_score_for:
  "own_score (score_for G dfs acc) =
     fst (own_flags G (detect_loops G (account_ids_of dfs)) (high_velocity_senders (transactions dfs)) acc)"
  by (simp add: score_for_def result_of_def Let_def)

lemma flags_score_for:
  "flags (score_for G dfs acc) =
     snd (own_flags G (detect_loops G (account_ids_of dfs)) (high_velocity_senders (transactions dfs)) acc)"
  by (simp add: score_for_def result_of_def Let_def)


section \<open>Facts about the loop detector\<close>

lemma set_mg_nodes: "set (mg_nodes E) = fst ` set E \<union> snd ` set E"
  by (force simp: mg_nodes_def)

lemma extend_path_iff:
  "p \<in> set (extend_path E q) \<longleftrightarrow>
     (\<exists>u. p = u # q \<and> u \<in> set (mg_nodes E) \<and> (u, hd q) \<in> set E \<and> u \<notin> set q)"
  by (auto simp: extend_path_def)

lemma simple_paths_iff:
  "p \<in> set (simple_paths E n) \<longleftrightarrow>
     length p = Suc n \<and> distinct p \<and> successively (\<lambda>a b. (a, b) \<in> set E) p
     \<and> set p \<subseteq> set (mg_nodes E)"
proof (induction n arbitrary: p)
  case 0
  show ?case
    by (cases p) (auto simp: length_Suc_conv)
next
  case (Suc n)
  show ?case
  proof (cases p)
    case Nil
    then show ?thesis by (auto simp: extend_path_iff)
  next
    case (Cons u q)
    have "p \<in> set (simple_paths E (Suc n)) \<longleftrightarrow>
            q \<in> set (simple_paths E n) \<and> u \<in> set (mg_nodes E) \<and> (u, hd q) \<in> set E \<and> u \<notin> set q"
      using Cons by (auto simp: extend_path_iff)
    also have "\<dots> \<longleftrightarrow> length p = Suc (Suc n) \<and> distinct p
                 \<and> successively (\<lambda>a b. (a, b) \<in> set E) p \<and> set p \<subseteq> set (mg_nodes E)"
      unfolding Suc.IH using Cons by (auto simp: successively_Cons)
    finally show ?thesis .
  qed
qed

lemma cyclic_index:
  assumes "c \<noteq> []"
  shows "successively R c \<and> R (last c) (hd c) \<longleftrightarrow>
           (\<forall>i<length c. R (c ! i) (c ! (Suc i mod length c)))"
proof
  assume h: "successively R c \<and> R (last c) (hd c)"
  show "\<forall>i<length c. R (c ! i) (c ! (Suc i mod length c))"
  proof (intro allI impI)
    fix i assume i: "i < length c"
    show "R (c ! i) (c ! (Suc i mod length c))"
    proof (cases "Suc i < length c")
      case True
      with h show ?thesis by (simp add: successively_nth)
    next
      case False
      with i have si: "Suc i = length c" by simp
      then have "i = length c - 1" by simp
      then have "c ! i = last c"
        using assms by (simp add: last_conv_nth)
      moreover have "Suc i mod length c = 0"
        using si by simp
      ultimately show ?thesis
        using h assms by (simp add: hd_conv_nth)
    qed
  qed
next
  assume h: "\<forall>i<length c. R (c ! i) (c ! (Suc i mod length c))"
  have "successively R c"
    unfolding successively_conv_nth
  proof (intro allI impI)
    fix i assume "Suc i < length c"
    with h[rule_format, of i] show "R (c ! i) (c ! Suc i)" by simp
  qed
  moreover have "R (last c) (hd c)"
  proof -
    from assms have "length c - 1 < length c" by (cases c) auto
    from h[rule_format, OF this] assms show ?thesis
      by (simp add: last_conv_nth hd_conv_nth)
  qed
  ultimately show "successively R c \<and> R (last c) (hd c)" ..
qed

lemma simple_cycles_iff:
  "c \<in> set (simple_cycles E) \<longleftrightarrow>
     c \<noteq> [] \<and> distinct c \<and> (\<forall>i<length c. (c ! i, c ! (Suc i mod length c)) \<in> set E)"
proof
  assume "c \<in> set (simple_cycles E)"
  then obtain n where "c \<in> set (simple_paths E n)" and cl: "(last c, hd c) \<in> set E"
    by (auto simp: simple_cycles_def)
  then have ne: "c \<noteq> []" and d: "distinct c" and s: "successively (\<lambda>a b. (a, b) \<in> set E) c"
    by (auto simp: simple_paths_iff)
  from s cl cyclic_index[OF ne, of "\<lambda>a b. (a, b) \<in> set E"]
  have "\<forall>i<length c. (c ! i, c ! (Suc i mod length c)) \<in> set E" by simp
  with ne d show "c \<noteq> [] \<and> distinct c \<and> (\<forall>i<length c. (c ! i, c ! (Suc i mod length c)) \<in> set E)"
    by simp
next
  assume h: "c \<noteq> [] \<and> distinct c \<and> (\<forall>i<length c. (c ! i, c ! (Suc i mod length c)) \<in> set E)"
  then have ne: "c \<noteq> []" and d: "distinct c"
    and ix: "\<forall>i<length c. (c ! i, c ! (Suc i mod length c)) \<in> set E" by simp_all
  from ix cyclic_index[OF ne, of "\<lambda>a b. (a, b) \<in> set E"]
  have s: "successively (\<lambda>a b. (a, b) \<in> set E) c" and cl: "(last c, hd c) \<in> set E"
    by simp_all
  have sub: "set c \<subseteq> set (mg_nodes E)"
  proof
    fix x assume "x \<in> set c"
    then obtain i where "i < length c" "x = c ! i" by (auto simp: in_set_conv_nth)
    with ix have "(x, c ! (Suc i mod length c)) \<in> set E" by simp
    then show "x \<in> set (mg_nodes E)" by (force simp: set_mg_nodes)
  qed
  have "length c = card (set c)" using d by (simp add: distinct_card)
  also have "\<dots> \<le> card (set (mg_nodes E))" using sub by (simp add: card_mono)
  also have "\<dots> \<le> length (mg_nodes E)" by (rule card_length)
  finally have len: "length c - 1 < length (mg_nodes E)" using ne by (cases c) auto
  have "c \<in> set (simple_paths E (length c - 1))"
    unfolding simple_paths_iff using ne d s sub by (cases c) auto
  with len cl show "c \<in> set (simple_cycles E)"
    by (auto simp: simple_cycles_def)
qed

lemma money_graph_iff:
  "(a, b) \<in> set (money_graph G ids) \<longleftrightarrow>
     (\<exists>e\<in>set (g_edges G). e_edge_type e = money_flow \<and> e_src e = a \<and> e_dst e = b
        \<and> e_src e \<in> set ids \<and> e_dst e \<in> set ids)"
  by (auto simp: money_graph_def)

lemma money_cycle_simple_cycles:
  "money_cycle G ids c \<longleftrightarrow> c \<in> set (simple_cycles (money_graph G ids))"
  unfolding simple_cycles_iff money_cycle_def money_graph_iff by simp

lemma detect_loops_iff:
  "acc \<in> set (detect_loops G ids) \<longleftrightarrow>
     (\<exists>c. money_cycle G ids c \<and> 3 \<le> length c \<and> acc \<in> set c)"
  unfolding money_cycle_simple_cycles by (auto simp: detect_loops_def)

lemma single_partner_no_loop:
  assumes "\<forall>e\<in>set (g_edges G). e_edge_type e = money_flow \<longrightarrow>
             (e_src e = A \<longrightarrow> e_dst e = B) \<and> (e_dst e = A \<longrightarrow> e_src e = B)"
  shows "A \<notin> set (detect_loops G ids)"
proof
  assume "A \<in> set (detect_loops G ids)"
  then obtain c where cyc: "money_cycle G ids c" and len: "3 \<le> length c" and "A \<in> set c"
    by (auto simp: detect_loops_iff)
  then obtain i where i: "i < length c" "c ! i = A" by (auto simp: in_set_conv_nth)
  define n where "n = length c"
  define j where "j = Suc i mod n"
  define k where "k = (if i = 0 then n - 1 else i - 1)"
  have npos: "0 < n" using len unfolding n_def by linarith
  have in': "i < n" using i by (simp add: n_def)
  have jn: "j < n" unfolding j_def using npos by simp
  have k0: "i = 0 \<Longrightarrow> k = n - 1" and k1: "i \<noteq> 0 \<Longrightarrow> k = i - 1"
    by (simp_all add: k_def)
  have n3: "3 \<le> n" using len unfolding n_def .
  have kn: "k < n"
  proof (cases "i = 0")
    case True
    with k0 npos show ?thesis by arith
  next
    case False
    with k1 in' show ?thesis by arith
  qed
  have sk: "Suc k mod n = i"
  proof (cases "i = 0")
    case True
    with k0 npos have "Suc k = n" by arith
    with True show ?thesis by simp
  next
    case False
    with k1 have "Suc k = i" by arith
    with in' show ?thesis by simp
  qed
  have jk: "j \<noteq> k"
  proof (cases "Suc i < n")
    case True
    then have js: "j = Suc i" by (simp add: j_def)
    show ?thesis
    proof (cases "i = 0")
      case True
      with k0 js n3 show ?thesis by arith
    next
      case False
      with k1 js show ?thesis by arith
    qed
  next
    case False
    with in' have si: "Suc i = n" by arith
    then have j0: "j = 0" by (simp add: j_def)
    from si n3 have "i \<noteq> 0" by arith
    with k1 si n3 j0 show ?thesis by arith
  qed
  from cyc i have "\<exists>e\<in>set (g_edges G). e_edge_type e = money_flow \<and> e_src e = c ! i \<and> e_dst e = c ! j"
    unfolding money_cycle_def j_def n_def by blast
  with assms i have cj: "c ! j = B" by auto
  from cyc kn have "\<exists>e\<in>set (g_edges G). e_edge_type e = money_flow \<and> e_src e = c ! k \<and> e_dst e = c ! (Suc k mod n)"
    unfolding money_cycle_def n_def by blast
  with assms i sk have ck: "c ! k = B" by auto
  from cyc have "distinct c" by (simp add: money_cycle_def)
  moreover have "c ! j = c ! k" using cj ck by simp
  ultimately have "j = k"
    using jn kn unfolding n_def by (simp only: nth_eq_iff_index_eq)
  with jk show False by simp
qed


section \<open>Facts about double rounding and contamination\<close>

lemma bitlen_pow: "0 < p \<Longrightarrow> (2::rat) powi (bitlen p - 1) \<le> of_int p \<and> of_int p < (2::rat) powi (bitlen p)"
proof -
  assume p: "0 < p"
  then have b1: "1 \<le> bitlen p" by (auto simp: bitlen_alt_def)
  from bitlen_bounds[OF p] have "2 ^ nat (bitlen p - 1) \<le> p" "p < 2 ^ nat (bitlen p)" by simp_all
  then have "(of_int (2 ^ nat (bitlen p - 1)) :: rat) \<le> of_int p"
    "(of_int p :: rat) < of_int (2 ^ nat (bitlen p))"
    by (simp_all only: of_int_le_iff of_int_less_iff)
  with b1 show ?thesis
    by (simp add: power_int_nonneg_exp)
qed

lemma expo_bounds:
  assumes "0 < x"
  shows "2 powi (expo x) \<le> x \<and> x < 2 powi (expo x + 1)"
proof -
  obtain p q where pq: "quotient_of x = (p, q)" by (cases "quotient_of x")
  then have q: "0 < q" and x: "x = of_int p / of_int q"
    by (simp_all add: quotient_of_denom_pos quotient_of_div)
  with assms have p: "0 < p"
    by (simp add: zero_less_divide_iff)
  define d where "d = bitlen p - bitlen q"
  from bitlen_pow[OF p] bitlen_pow[OF q]
  have bp: "(2::rat) powi (bitlen p - 1) \<le> of_int p" "of_int p < (2::rat) powi (bitlen p)"
    and bq: "(2::rat) powi (bitlen q - 1) \<le> of_int q" "of_int q < (2::rat) powi (bitlen q)"
    by simp_all
  have qpos: "(0::rat) < of_int q" using q by simp
  have up: "x < (2::rat) powi (d + 1)"
  proof -
    have "x * of_int q = of_int p" using qpos by (simp add: x)
    also have "\<dots> < 2 powi (bitlen p)" by (rule bp)
    also have "\<dots> = (2::rat) powi (d + 1) * 2 powi (bitlen q - 1)"
      by (simp add: d_def flip: power_int_add)
    also have "\<dots> \<le> 2 powi (d + 1) * of_int q"
      using bq(1) by (intro mult_left_mono) auto
    finally show ?thesis using qpos by simp
  qed
  have lo: "(2::rat) powi (d - 1) \<le> x"
  proof -
    have "(2::rat) powi (d - 1) * of_int q \<le> 2 powi (d - 1) * 2 powi (bitlen q)"
      using bq(2) by (intro mult_left_mono) auto
    also have "\<dots> = 2 powi (bitlen p - 1)"
      by (simp add: d_def flip: power_int_add)
    also have "\<dots> \<le> of_int p" by (rule bp)
    also have "\<dots> = x * of_int q" using qpos by (simp add: x)
    finally show ?thesis using qpos by simp
  qed
  have e: "expo x = (if 2 powi d \<le> x then d else d - 1)"
    by (simp add: expo_def Let_def pq d_def)
  show ?thesis
  proof (cases "2 powi d \<le> x")
    case True
    with e up show ?thesis by simp
  next
    case False
    with e lo show ?thesis by simp
  qed
qed

lemma expo_unique:
  assumes "2 powi k \<le> x" "x < 2 powi (k + 1)"
  shows "expo x = k"
proof -
  have "(0::rat) < 2 powi k" by simp
  with assms(1) have x: "0 < x" by linarith
  from expo_bounds[OF x] have b: "2 powi (expo x) \<le> x" "x < 2 powi (expo x + 1)" by simp_all
  have "(2::rat) powi k < 2 powi (expo x + 1)" using assms(1) b(2) by linarith
  then have "k < expo x + 1"
    by (metis linorder_not_less numeral_One numeral_le_iff power_int_increasing semiring_norm(69) one_le_numeral)
  moreover have "(2::rat) powi (expo x) < 2 powi (k + 1)" using assms(2) b(1) by linarith
  then have "expo x < k + 1"
    by (metis linorder_not_less power_int_increasing one_le_numeral)
  ultimately show ?thesis by linarith
qed

lemma rhe_ge_floor: "\<lfloor>y\<rfloor> \<le> rhe y"
  by (simp add: rhe_def Let_def)

lemma rhe_ge:
  assumes "of_int n - 1 / 2 < y"
  shows "n \<le> rhe y"
proof (cases "n \<le> \<lfloor>y\<rfloor>")
  case True
  with rhe_ge_floor[of y] show ?thesis by linarith
next
  case False
  then have n: "\<lfloor>y\<rfloor> + 1 \<le> n" by linarith
  then have "(of_int (\<lfloor>y\<rfloor> + 1) :: rat) \<le> of_int n" by (simp only: of_int_le_iff)
  with assms have d: "1 / 2 < y - of_int \<lfloor>y\<rfloor>" by simp
  then have r: "rhe y = \<lfloor>y\<rfloor> + 1" by (simp add: rhe_def Let_def)
  have "y < of_int \<lfloor>y\<rfloor> + 1" by linarith
  with assms have "(of_int n :: rat) < of_int \<lfloor>y\<rfloor> + 1 + 1 / 2" by linarith
  then have "(of_int n :: rat) < of_int (\<lfloor>y\<rfloor> + 2)" by simp
  then have "n < \<lfloor>y\<rfloor> + 2" by (simp only: of_int_less_iff)
  with r show ?thesis by linarith
qed

lemma fl_pos:
  assumes "0 < x"
  shows "fl x = of_int (rhe (x / 2 powi (expo x - 52))) * 2 powi (expo x - 52)"
  using assms by (simp add: fl_def Let_def)

lemma fl_ge_grid:
  assumes "2 powi k \<le> x" "x < 2 powi (k + 1)"
    and "of_int n * 2 powi (k - 52) - 2 powi (k - 52) / 2 < x"
  shows "of_int n * 2 powi (k - 52) \<le> fl x"
proof -
  have "(0::rat) < 2 powi k" by simp
  with assms(1) have x: "0 < x" by linarith
  have e: "expo x = k" using assms(1,2) by (rule expo_unique)
  have u: "(0::rat) < 2 powi (k - 52)" by simp
  from assms(3) have "(of_int n - 1 / 2) * 2 powi (k - 52) < x"
    by (simp add: algebra_simps)
  with u have "of_int n - 1 / 2 < x / 2 powi (k - 52)"
    by (simp add: pos_less_divide_eq)
  then have "n \<le> rhe (x / 2 powi (k - 52))" by (rule rhe_ge)
  then have "(of_int n :: rat) \<le> of_int (rhe (x / 2 powi (k - 52)))"
    by (simp only: of_int_le_iff)
  with u have "(of_int n :: rat) * 2 powi (k - 52)
                 \<le> of_int (rhe (x / 2 powi (k - 52))) * 2 powi (k - 52)"
    by (intro mult_right_mono) auto
  then show ?thesis by (simp add: fl_pos[OF x] e)
qed

lemma fl_ge_pow2:
  assumes "2 powi k \<le> x"
  shows "2 powi k \<le> fl x"
proof -
  have "(0::rat) < 2 powi k" by simp
  with assms have x: "0 < x" by linarith
  define e where "e = expo x"
  from expo_bounds[OF x] have b: "2 powi e \<le> x" "x < 2 powi (e + 1)" by (simp_all add: e_def)
  have "(2::rat) powi k < 2 powi (e + 1)" using assms b(2) by linarith
  then have "k < e + 1"
    by (metis linorder_not_less power_int_increasing one_le_numeral)
  then have ke: "(2::rat) powi k \<le> 2 powi e"
    by (intro power_int_increasing) auto
  have "of_int (2 ^ 52) * 2 powi (e - 52) - 2 powi (e - 52) / 2 < x"
  proof -
    have "of_int (2 ^ 52) * 2 powi (e - 52) = (2::rat) powi e"
      by (simp add: power_int_diff)
    moreover have "(0::rat) < 2 powi (e - 52) / 2" by simp
    ultimately show ?thesis using b(1) by linarith
  qed
  with b have "of_int (2 ^ 52) * 2 powi (e - 52) \<le> fl x"
    by (rule fl_ge_grid)
  moreover have "of_int (2 ^ 52) * 2 powi (e - 52) = (2::rat) powi e"
    by (simp add: power_int_diff)
  ultimately show ?thesis using ke by linarith
qed

lemma fl_ge_15:
  assumes "15 \<le> x"
  shows "15 \<le> fl x"
proof (cases "x < 16")
  case True
  have "of_int (15 * 2 ^ 49) * 2 powi (3 - 52) \<le> fl x"
  proof (rule fl_ge_grid)
    show "2 powi 3 \<le> x" using assms by simp
    show "x < 2 powi (3 + 1)" using True by simp
    show "of_int (15 * 2 ^ 49) * 2 powi (3 - 52) - 2 powi (3 - 52) / 2 < x"
      using assms by (simp add: power_int_minus)
  qed
  then show ?thesis by (simp add: power_int_minus)
next
  case False
  then have "2 powi 4 \<le> x" by simp
  then have "2 powi 4 \<le> fl x" by (rule fl_ge_pow2)
  then show ?thesis by simp
qed

lemma fl_ge_9_2:
  assumes "9 / 2 - 2 powi (- 51) < x"
  shows "9 / 2 \<le> fl x"
proof (cases "x < 8")
  case True
  have "of_int (9 * 2 ^ 49) * 2 powi (2 - 52) \<le> fl x"
  proof (rule fl_ge_grid)
    show "2 powi 2 \<le> x" using assms by (simp add: power_int_minus)
    show "x < 2 powi (2 + 1)" using True by simp
    show "of_int (9 * 2 ^ 49) * 2 powi (2 - 52) - 2 powi (2 - 52) / 2 < x"
      using assms by (simp add: power_int_minus)
  qed
  then show ?thesis by (simp add: power_int_minus)
next
  case False
  then have "2 powi 3 \<le> x" by simp
  then have "2 powi 3 \<le> fl x" by (rule fl_ge_pow2)
  then show ?thesis by simp
qed

lemma CONTAMINATION_WEIGHT_value:
  "CONTAMINATION_WEIGHT = 5404319552844595 / 18014398509481984"
  unfolding CONTAMINATION_WEIGHT_def by code_simp

lemma py_round1_ge_9_2:
  assumes "9 / 2 \<le> x"
  shows "9 / 2 \<le> py_round1 x"
proof -
  from assms have "of_int 45 \<le> x * 10" by simp
  then have "45 \<le> \<lfloor>x * 10\<rfloor>" by (simp add: le_floor_iff)
  with rhe_ge_floor[of "x * 10"] have "45 \<le> rhe (x * 10)" by linarith
  then have "(of_int 45 :: rat) \<le> of_int (rhe (x * 10))" by (simp only: of_int_le_iff)
  then have "9 / 2 \<le> (of_int (rhe (x * 10)) :: rat) / 10" by simp
  moreover have "(0::rat) < 2 powi (- 51)" by simp
  ultimately have "9 / 2 - 2 powi (- 51) < (of_int (rhe (x * 10)) :: rat) / 10" by linarith
  then show ?thesis unfolding py_round1_def by (rule fl_ge_9_2)
qed

lemma set_nbrs: "set (nbrs G ids acc) = neighbours G ids acc"
  by (auto simp: nbrs_def neighbours_def out_edges_def in_edges_def)



lemma contamination_score_for:
  "contamination (score_for G dfs acc) =
     contamination_of (\<lambda>a. own_score (score_for G dfs a)) (nbrs G (account_ids_of dfs) acc)"
  by (simp add: score_for_def result_of_def Let_def)

lemma final_score_score_for:
  "final_score (score_for G dfs acc) =
     py_round1 (fl (of_nat (own_score (score_for G dfs acc)) + contamination (score_for G dfs acc)))"
  by (simp add: score_for_def result_of_def Let_def)

lemma classification_score_for:
  "classification (score_for G dfs acc) = classify (final_score (score_for G dfs acc))"
  by (simp add: score_for_def result_of_def Let_def)

lemma in_loop_score_for:
  "in_loop (score_for G dfs acc) \<longleftrightarrow> acc \<in> set (detect_loops G (account_ids_of dfs))"
  by (simp add: score_for_def result_of_def Let_def)

lemma sr_account_id_score_for: "sr_account_id (score_for G dfs acc) = acc"
  by (simp add: score_for_def result_of_def Let_def)

lemma map_of_score_table:
  "map_of (score_table G dfs) n =
     (if n \<in> set (account_ids_of dfs) then Some (score_for G dfs n) else None)"
  by (simp add: score_table_def map_of_map_restrict restrict_map_def)

lemma own_score_in_score_table:
  "n \<in> set (account_ids_of dfs) \<Longrightarrow>
   own_score_in (score_table G dfs) n = own_score (score_for G dfs n)"
  by (simp add: own_score_in_def map_of_score_table)

lemma own_flags_ge_15:
  assumes "e \<in> set (g_edges G)" "e_src e = n \<or> e_dst e = n"
  shows "15 \<le> fst (own_flags G la hv n)"
proof (cases "e_edge_type e")
  case shared_ip
  with assms have "0 < etc G n shared_ip" unfolding etc_pos by blast
  then show ?thesis unfolding own_flags_fst by simp
next
  case shared_device
  with assms have "0 < etc G n shared_device" unfolding etc_pos by blast
  then show ?thesis unfolding own_flags_fst by simp
next
  case shared_touchpoint
  with assms have "0 < etc G n shared_touchpoint" unfolding etc_pos by blast
  then show ?thesis unfolding own_flags_fst by simp
next
  case money_flow
  with assms have "in_money G n \<noteq> [] \<or> out_money G n \<noteq> []"
    unfolding in_money_nonempty out_money_nonempty by blast
  then show ?thesis unfolding own_flags_fst by auto
qed

lemma contamination_of_ge:
  assumes "ns \<noteq> []" "\<forall>n\<in>set ns. 15 \<le> own n"
  shows "9 / 2 \<le> contamination_of own ns"
proof -
  have "15 * length ns \<le> sum_list (map own ns)"
    using assms(2) by (induction ns) auto
  then have "(15::rat) * of_nat (length ns) \<le> of_nat (sum_list (map own ns))"
    by (metis of_nat_le_iff of_nat_mult of_nat_numeral)
  moreover have "(0::rat) < of_nat (length ns)" using assms(1) by simp
  ultimately have "(15::rat) \<le> of_nat (sum_list (map own ns)) / of_nat (length ns)"
    by (simp add: pos_le_divide_eq)
  then have "15 \<le> fl (of_nat (sum_list (map own ns)) / of_nat (length ns))"
    by (rule fl_ge_15)
  then have "CONTAMINATION_WEIGHT * 15
               \<le> CONTAMINATION_WEIGHT * fl (of_nat (sum_list (map own ns)) / of_nat (length ns))"
    by (intro mult_left_mono) (simp_all add: CONTAMINATION_WEIGHT_value)
  moreover have "9 / 2 - 2 powi (- 51) < CONTAMINATION_WEIGHT * 15"
    by (simp add: CONTAMINATION_WEIGHT_value power_int_minus)
  ultimately have "9 / 2 - 2 powi (- 51)
      < CONTAMINATION_WEIGHT * fl (of_nat (sum_list (map own ns)) / of_nat (length ns))"
    by linarith
  then have "9 / 2
      \<le> fl (CONTAMINATION_WEIGHT * fl (of_nat (sum_list (map own ns)) / of_nat (length ns)))"
    by (rule fl_ge_9_2)
  then have "9 / 2 \<le> py_round1
      (fl (CONTAMINATION_WEIGHT * fl (of_nat (sum_list (map own ns)) / of_nat (length ns))))"
    by (rule py_round1_ge_9_2)
  with assms(1) show ?thesis by (simp add: contamination_of_def)
qed

lemma contamination_zero_iff:
  "contamination (score_for G dfs acc) = 0 \<longleftrightarrow> neighbours G (account_ids_of dfs) acc = {}"
proof (cases "nbrs G (account_ids_of dfs) acc = []")
  case True
  then have "neighbours G (account_ids_of dfs) acc = {}"
    using set_nbrs[of G "account_ids_of dfs" acc] by simp
  with True show ?thesis
    by (simp add: contamination_score_for contamination_of_def)
next
  case False
  have "\<forall>n\<in>set (nbrs G (account_ids_of dfs) acc). 15 \<le> own_score (score_for G dfs n)"
  proof
    fix n assume "n \<in> set (nbrs G (account_ids_of dfs) acc)"
    then have "n \<in> neighbours G (account_ids_of dfs) acc" by (simp add: set_nbrs)
    then obtain e where "e \<in> set (g_edges G)" "e_src e = n \<or> e_dst e = n"
      by (auto simp: neighbours_def)
    then show "15 \<le> own_score (score_for G dfs n)"
      unfolding own_score_score_for by (rule own_flags_ge_15)
  qed
  with False have "9 / 2 \<le> contamination (score_for G dfs acc)"
    unfolding contamination_score_for by (rule contamination_of_ge)
  moreover from False have "neighbours G (account_ids_of dfs) acc \<noteq> {}"
    using set_nbrs[of G "account_ids_of dfs" acc] by auto
  ultimately show ?thesis by auto
qed


section \<open>The sample tables, evaluated\<close>

lemma flow_ids: "account_ids_of flow_tables = [''A'', ''B'', ''C'']"
  by code_simp

lemma flow_edges:
  "g_edges (build_graph flow_tables) =
     [shared_edge shared_touchpoint ''A'' ''B'', shared_edge shared_touchpoint ''B'' ''A'',
      money_edge (txn ''t1'' ''C'' ''A'')]"
  by code_simp

lemma flow_loops: "detect_loops (build_graph flow_tables) [''A'', ''B'', ''C''] = []"
  by code_simp

lemma flow_hv: "high_velocity_senders (transactions flow_tables) = []"
  by code_simp

lemma flow_own:
  "fst (own_flags (build_graph flow_tables) [] [] ''A'') = 35"
  "fst (own_flags (build_graph flow_tables) [] [] ''B'') = 15"
  "fst (own_flags (build_graph flow_tables) [] [] ''C'') = 20"
  by code_simp+

lemma flow_nbrs:
  "nbrs (build_graph flow_tables) [''A'', ''B'', ''C''] ''A'' = [''B'', ''C'']"
  "nbrs (build_graph flow_tables) [''A'', ''B'', ''C''] ''C'' = [''A'']"
  by code_simp+

lemma flow_own_score:
  "own_score (score_for (build_graph flow_tables) flow_tables ''A'') = 35"
  "own_score (score_for (build_graph flow_tables) flow_tables ''B'') = 15"
  "own_score (score_for (build_graph flow_tables) flow_tables ''C'') = 20"
  by (simp_all add: own_score_score_for flow_ids flow_loops flow_hv flow_own)

lemma contamination_of_Cons:
  "contamination_of own (n # ns) =
     py_round1 (fl (CONTAMINATION_WEIGHT
       * fl (of_nat (sum_list (map own (n # ns))) / of_nat (length (n # ns)))))"
  by (simp add: contamination_of_def)

lemma flow_sums:
  "sum_list (map (\<lambda>a. own_score (score_for (build_graph flow_tables) flow_tables a)) [''B'', ''C'']) = 35"
  "sum_list (map (\<lambda>a. own_score (score_for (build_graph flow_tables) flow_tables a)) [''A'']) = 35"
  by (simp_all add: flow_own_score)

lemma flow_contamination:
  "contamination (score_for (build_graph flow_tables) flow_tables ''A'') = fl (26 / 5)"
  "contamination (score_for (build_graph flow_tables) flow_tables ''C'') = 21 / 2"
  unfolding contamination_score_for flow_ids flow_nbrs contamination_of_Cons flow_sums
  by code_simp+


lemma tie_contamination:
  "contamination_of tie_own tie_nbrs = fl (109 / 10)"
  "fl (109 / 10) = 6136154492292301 / 562949953421312"
  "sum_list (map tie_own tie_nbrs) = 365"
  "fl (CONTAMINATION_WEIGHT * fl (365 / 10)) = 3082150994981683 / 281474976710656"
  by code_simp+

lemma linked_ids_eval: "account_ids_of linked_tables = [''A'']"
  by code_simp

lemma linked_nodes: "g_nodes (build_graph linked_tables) = [(''A'', Some (account_attrs (acct ''A''))), (''X'', None)]"
  by code_simp

lemma flow_final:
  "final_score (score_for (build_graph flow_tables) flow_tables ''C'') = 61 / 2"
  unfolding final_score_score_for flow_own_score flow_contamination by code_simp

lemma flow_class:
  "classification (score_for (build_graph flow_tables) flow_tables ''C'') = BLOCK"
  unfolding classification_score_for flow_final by code_simp

lemma ring_ids: "account_ids_of ring_tables = [''A'', ''B'', ''C'', ''D'', ''E'']"
  by code_simp

lemma ring_edges:
  "g_edges (build_graph ring_tables) =
     [shared_edge shared_ip ''A'' ''B'', shared_edge shared_ip ''B'' ''A'',
      shared_edge shared_device ''A'' ''C'', shared_edge shared_device ''C'' ''A'',
      shared_edge shared_touchpoint ''A'' ''B'', shared_edge shared_touchpoint ''B'' ''A'',
      money_edge (txn ''t1'' ''A'' ''B''), money_edge (txn ''t2'' ''B'' ''C''),
      money_edge (txn ''t3'' ''C'' ''A''), money_edge (txn ''t4'' ''A'' ''B''),
      money_edge (txn ''t5'' ''A'' ''C''), money_edge (txn ''t6'' ''D'' ''E''),
      money_edge (txn ''t7'' ''E'' ''D'')]"
  by code_simp

lemma ring_loops:
  "detect_loops (build_graph ring_tables) [''A'', ''B'', ''C'', ''D'', ''E''] = [''A'', ''B'', ''C'']"
  by code_simp

lemma ring_hv: "high_velocity_senders (transactions ring_tables) = [''A'']"
  by code_simp

lemma ring_own: "own_flags (build_graph ring_tables) [''A'', ''B'', ''C''] [''A''] ''A'' =
   (170, [\<lparr>flag = Shared_IP_Address, weight = 25\<rparr>,
  \<lparr>flag = Shared_Device_IMEI, weight = 30\<rparr>,
  \<lparr>flag = Shared_ATM_Portal, weight = 15\<rparr>,
  \<lparr>flag = Received_money 1, weight = 20\<rparr>,
  \<lparr>flag = Sent_money 3, weight = 20\<rparr>,
  \<lparr>flag = Transaction_Loop_Detected, weight = 40\<rparr>,
  \<lparr>flag = High_Velocity_Sending, weight = 20\<rparr>])"
  by code_simp

lemma dangling_nodes: "g_nodes (build_graph dangling_tables) = [(''A'', Some (account_attrs (acct ''A''))), (''X'', None)]"
  by code_simp

lemma unshared_nodes: "node_ids (build_graph unshared_tables) = [''A'']"
  by code_simp

lemma self_edges: "g_edges (build_graph self_tables) = [money_edge (txn ''t1'' ''A'' ''A'')]"
  by code_simp

lemma self_own: "own_flags (build_graph self_tables) [] [] ''A'' = (40, [\<lparr>flag = Received_money 1, weight = 20\<rparr>, \<lparr>flag = Sent_money 1, weight = 20\<rparr>])"
  by code_simp

lemma self_loops: "detect_loops (build_graph self_tables) [''A''] = []"
  by code_simp

lemma ring_own_score:
  "own_score (score_for (build_graph ring_tables) ring_tables ''A'') = 170"
  by (simp add: own_score_score_for ring_ids ring_loops ring_hv ring_own)

lemma ring_flags:
  "length (flags (score_for (build_graph ring_tables) ring_tables ''A'')) = 7"
  by (simp add: flags_score_for ring_ids ring_loops ring_hv ring_own)

lemma dangling_ids: "account_ids_of dangling_tables = [''A'']"
  by code_simp

lemma unshared_ids: "account_ids_of unshared_tables = [''A'']"
  by code_simp

lemma self_ids: "account_ids_of self_tables = [''A'']"
  by code_simp

lemma self_hv: "high_velocity_senders (transactions self_tables) = []"
  by code_simp

lemma linked_X: "''X'' \<in> linked_ids linked_tables"
  by code_simp

lemma linked_Y: "''Y'' \<notin> linked_ids linked_tables"
  by code_simp


section \<open>Further facts\<close>

lemma classify_eq:
  "classify s =
     (if 0 \<le> s \<and> s \<le> 30 then CLEAN
      else if 31 \<le> s \<and> s \<le> 60 then WATCH
      else if 61 \<le> s \<and> s \<le> 90 then SUSPICIOUS
      else BLOCK)"
  by (simp add: classify_def THRESHOLDS_def)

lemma flag_keys_all: "distinct flag_keys \<and> set flag_keys = UNIV"
proof -
  have "x \<in> set flag_keys" for x
    by (cases x) (simp_all add: flag_keys_def)
  then show ?thesis by (auto simp: flag_keys_def)
qed

lemma flag_weights_total: "sum_list (map FLAG_WEIGHTS flag_keys) = 170"
  by (simp add: flag_keys_def)

lemma own_flags_mem:
  "\<lparr>flag = Shared_IP_Address, weight = 25\<rparr> \<in> set (snd (own_flags G la hv acc))
     \<longleftrightarrow> 0 < etc G acc shared_ip"
  "\<lparr>flag = Shared_Device_IMEI, weight = 30\<rparr> \<in> set (snd (own_flags G la hv acc))
     \<longleftrightarrow> 0 < etc G acc shared_device"
  "\<lparr>flag = Shared_ATM_Portal, weight = 15\<rparr> \<in> set (snd (own_flags G la hv acc))
     \<longleftrightarrow> 0 < etc G acc shared_touchpoint"
  "\<lparr>flag = Received_money (length (in_money G acc)), weight = 20\<rparr>
     \<in> set (snd (own_flags G la hv acc)) \<longleftrightarrow> in_money G acc \<noteq> []"
  "\<lparr>flag = Sent_money (length (out_money G acc)), weight = 20\<rparr>
     \<in> set (snd (own_flags G la hv acc)) \<longleftrightarrow> out_money G acc \<noteq> []"
  "\<lparr>flag = Transaction_Loop_Detected, weight = 40\<rparr> \<in> set (snd (own_flags G la hv acc))
     \<longleftrightarrow> acc \<in> set la"
  "\<lparr>flag = High_Velocity_Sending, weight = 20\<rparr> \<in> set (snd (own_flags G la hv acc))
     \<longleftrightarrow> acc \<in> set hv"
  unfolding own_flags_snd by simp_all

lemma compute_scores_entry:
  assumes "compute_scores G dfs = Inr tbl" "(acc, r) \<in> set tbl"
  shows "tbl = score_table G dfs" "acc \<in> set (account_ids_of dfs)" "r = score_for G dfs acc"
  using assms by (simp_all add: compute_scores_Inr score_table_mem)

lemma combinations2_covers:
  assumes "2 \<le> length xs" "x \<in> set xs"
  shows "\<exists>p\<in>set (combinations2 xs). x = fst p \<or> x = snd p"
proof (cases xs)
  case Nil
  with assms show ?thesis by simp
next
  case (Cons a ys)
  with assms(1) have ne: "ys \<noteq> []" by auto
  show ?thesis
  proof (cases "x = a")
    case True
    from ne have "(a, hd ys) \<in> set (combinations2 xs)"
      unfolding Cons by simp
    with True show ?thesis by force
  next
    case False
    with assms(2) Cons have "(a, x) \<in> set (combinations2 xs)" by auto
    then show ?thesis by force
  qed
qed

lemma group_members_are_endpoints:
  assumes "grp \<in> set grps" "2 \<le> length (snd grp)" "x \<in> set (snd grp)"
  shows "x \<in> endpoints (group_edges t grps)"
proof -
  from combinations2_covers[OF assms(2,3)] obtain p
    where p: "p \<in> set (combinations2 (snd grp))" and x: "x = fst p \<or> x = snd p" by blast
  have "shared_edge t (fst p) (snd p) \<in> set (pair_edges t p)"
    by (simp add: pair_edges_def)
  with p assms(1) have "shared_edge t (fst p) (snd p) \<in> set (group_edges t grps)"
    by (auto simp: group_edges_def)
  with x show ?thesis
    by (force simp: endpoints_def shared_edge_def)
qed

lemma endpoints_append: "endpoints (xs @ ys) = endpoints xs \<union> endpoints ys"
  by (auto simp: endpoints_def)

lemma endpoints_money: "endpoints (map money_edge txns) = sender ` set txns \<union> receiver ` set txns"
  by (force simp: endpoints_def money_edge_def)


lemma account_ids_without_self:
  "account_ids_of (without_self_transactions dfs) = account_ids_of dfs"
  by (simp add: without_self_transactions_def account_ids_of_def)

lemma all_edges_without_self:
  "all_edges (without_self_transactions dfs) =
     group_edges shared_ip (ip_grps dfs) @ group_edges shared_device (dev_grps dfs)
     @ group_edges shared_touchpoint (tp_grps dfs)
     @ map money_edge (filter (\<lambda>row. sender row \<noteq> receiver row) (transactions dfs))"
  by (simp add: all_edges_def without_self_transactions_def ip_grps_def dev_grps_def tp_grps_def)

lemma group_edges_not_money:
  "e \<in> set (group_edges t grps) \<Longrightarrow> t \<noteq> money_flow \<Longrightarrow> e_edge_type e \<noteq> money_flow"
  using group_edges_sym by blast

lemma money_edges_of_build_graph:
  "e \<in> set (g_edges (build_graph dfs)) \<and> e_edge_type e = money_flow
     \<longleftrightarrow> e \<in> set (map money_edge (transactions dfs))"
proof
  assume h: "e \<in> set (g_edges (build_graph dfs)) \<and> e_edge_type e = money_flow"
  then have "e \<notin> set (group_edges shared_ip (ip_grps dfs))"
    "e \<notin> set (group_edges shared_device (dev_grps dfs))"
    "e \<notin> set (group_edges shared_touchpoint (tp_grps dfs))"
    using group_edges_not_money by fastforce+
  with h show "e \<in> set (map money_edge (transactions dfs))"
    by (simp add: g_edges_build_graph all_edges_def)
next
  assume h: "e \<in> set (map money_edge (transactions dfs))"
  then have "e_edge_type e = money_flow" by (rule money_edge_type)
  with h show "e \<in> set (g_edges (build_graph dfs)) \<and> e_edge_type e = money_flow"
    by (simp add: g_edges_build_graph all_edges_def)
qed

lemma money_edges_without_self:
  "e \<in> set (g_edges (build_graph (without_self_transactions dfs))) \<and> e_edge_type e = money_flow
     \<longleftrightarrow> e \<in> set (g_edges (build_graph dfs)) \<and> e_edge_type e = money_flow
          \<and> e_src e \<noteq> e_dst e"
  unfolding money_edges_of_build_graph conj_assoc[symmetric]
  unfolding money_edges_of_build_graph
  by (auto simp: without_self_transactions_def money_edge_def)

lemma cycle_step_differs:
  assumes "distinct c" "2 \<le> length c" "i < length c"
  shows "c ! i \<noteq> c ! (Suc i mod length c)"
proof -
  from assms(3) have "0 < length c" by arith
  then have j: "Suc i mod length c < length c" by (rule mod_less_divisor)
  have "Suc i mod length c \<noteq> i"
  proof (cases "Suc i < length c")
    case True
    then show ?thesis by simp
  next
    case False
    with assms(3) have "Suc i = length c" by arith
    moreover from this assms(2) have "i \<noteq> 0" by arith
    ultimately show ?thesis by simp
  qed
  with assms(1,3) j show ?thesis
    by (simp only: nth_eq_iff_index_eq)
qed

lemma money_cycle_without_self:
  assumes "2 \<le> length c"
  shows "money_cycle (build_graph (without_self_transactions dfs)) ids c
           \<longleftrightarrow> money_cycle (build_graph dfs) ids c"
proof (cases "c \<noteq> [] \<and> distinct c")
  case False
  then show ?thesis by (auto simp: money_cycle_def)
next
  case True
  have step: "(\<exists>e\<in>set (g_edges (build_graph (without_self_transactions dfs))).
                 e_edge_type e = money_flow \<and> e_src e = c ! i \<and> e_dst e = c ! (Suc i mod length c)
                 \<and> e_src e \<in> set ids \<and> e_dst e \<in> set ids)
          \<longleftrightarrow> (\<exists>e\<in>set (g_edges (build_graph dfs)).
                 e_edge_type e = money_flow \<and> e_src e = c ! i \<and> e_dst e = c ! (Suc i mod length c)
                 \<and> e_src e \<in> set ids \<and> e_dst e \<in> set ids)"
    if i: "i < length c" for i
  proof -
    from True assms i have ne: "c ! i \<noteq> c ! (Suc i mod length c)"
      by (simp add: cycle_step_differs)
    show ?thesis
    proof
      assume "\<exists>e\<in>set (g_edges (build_graph (without_self_transactions dfs))).
                 e_edge_type e = money_flow \<and> e_src e = c ! i \<and> e_dst e = c ! (Suc i mod length c)
                 \<and> e_src e \<in> set ids \<and> e_dst e \<in> set ids"
      then obtain e where e: "e \<in> set (g_edges (build_graph (without_self_transactions dfs)))
           \<and> e_edge_type e = money_flow"
        and r: "e_src e = c ! i \<and> e_dst e = c ! (Suc i mod length c)
                 \<and> e_src e \<in> set ids \<and> e_dst e \<in> set ids" by blast
      from e have "e \<in> set (g_edges (build_graph dfs)) \<and> e_edge_type e = money_flow"
        unfolding money_edges_without_self by simp
      with r show "\<exists>e\<in>set (g_edges (build_graph dfs)).
                 e_edge_type e = money_flow \<and> e_src e = c ! i \<and> e_dst e = c ! (Suc i mod length c)
                 \<and> e_src e \<in> set ids \<and> e_dst e \<in> set ids" by blast
    next
      assume "\<exists>e\<in>set (g_edges (build_graph dfs)).
                 e_edge_type e = money_flow \<and> e_src e = c ! i \<and> e_dst e = c ! (Suc i mod length c)
                 \<and> e_src e \<in> set ids \<and> e_dst e \<in> set ids"
      then obtain e where e: "e \<in> set (g_edges (build_graph dfs))" "e_edge_type e = money_flow"
        and r: "e_src e = c ! i \<and> e_dst e = c ! (Suc i mod length c)
                 \<and> e_src e \<in> set ids \<and> e_dst e \<in> set ids" by blast
      from r ne have "e_src e \<noteq> e_dst e" by simp
      with e have "e \<in> set (g_edges (build_graph (without_self_transactions dfs)))
           \<and> e_edge_type e = money_flow"
        unfolding money_edges_without_self by simp
      with r show "\<exists>e\<in>set (g_edges (build_graph (without_self_transactions dfs))).
                 e_edge_type e = money_flow \<and> e_src e = c ! i \<and> e_dst e = c ! (Suc i mod length c)
                 \<and> e_src e \<in> set ids \<and> e_dst e \<in> set ids" by blast
    qed
  qed
  show ?thesis
    unfolding money_cycle_def using step by simp
qed

lemma detect_loops_without_self:
  "set (detect_loops (build_graph (without_self_transactions dfs)) ids)
     = set (detect_loops (build_graph dfs) ids)"
proof -
  have eq: "money_cycle (build_graph (without_self_transactions dfs)) ids c
          \<longleftrightarrow> money_cycle (build_graph dfs) ids c" if "3 \<le> length c" for c
  proof -
    from that have "2 \<le> length c" by arith
    then show ?thesis by (rule money_cycle_without_self)
  qed
  have "x \<in> set (detect_loops (build_graph (without_self_transactions dfs)) ids)
          \<longleftrightarrow> x \<in> set (detect_loops (build_graph dfs) ids)" for x
    unfolding detect_loops_iff using eq by blast
  then show ?thesis by blast
qed

lemma combinations2_mem:
  "p \<in> set (combinations2 xs) \<Longrightarrow> fst p \<in> set xs \<and> snd p \<in> set xs"
  by (induction xs) auto

lemma combinations2_len: "p \<in> set (combinations2 xs) \<Longrightarrow> 2 \<le> length xs"
proof (induction xs)
  case Nil
  then show ?case by simp
next
  case (Cons x ys)
  then show ?case by (cases ys) auto
qed

lemma endpoints_group_edges:
  "endpoints (group_edges t grps)
     = (\<Union>grp\<in>{grp \<in> set grps. 2 \<le> length (snd grp)}. set (snd grp))"
proof (intro set_eqI iffI)
  fix x assume "x \<in> endpoints (group_edges t grps)"
  then obtain e where e: "e \<in> set (group_edges t grps)" and x: "x = e_src e \<or> x = e_dst e"
    by (auto simp: endpoints_def)
  from e obtain grp p where grp: "grp \<in> set grps" and p: "p \<in> set (combinations2 (snd grp))"
    and ep: "e \<in> set (pair_edges t p)"
    by (auto simp: group_edges_def)
  from ep x have "x = fst p \<or> x = snd p"
    by (auto simp: pair_edges_def shared_edge_def)
  with combinations2_mem[OF p] have "x \<in> set (snd grp)" by auto
  with grp combinations2_len[OF p]
  show "x \<in> (\<Union>grp\<in>{grp \<in> set grps. 2 \<le> length (snd grp)}. set (snd grp))"
    by blast
next
  fix x assume "x \<in> (\<Union>grp\<in>{grp \<in> set grps. 2 \<le> length (snd grp)}. set (snd grp))"
  then obtain grp where "grp \<in> set grps" "2 \<le> length (snd grp)" "x \<in> set (snd grp)"
    by blast
  then show "x \<in> endpoints (group_edges t grps)"
    by (rule group_members_are_endpoints)
qed

lemma set_groupby_list:
  "set (groupby_list key col rows)
     = (\<lambda>k. (k, map col (filter (\<lambda>r. key r = k) rows))) ` key ` set rows"
  by (simp add: groupby_list_def)

lemma endpoints_grouped:
  "endpoints (group_edges t (groupby_list key col rows))
     = {col r | r. r \<in> set rows \<and> 2 \<le> length (filter (\<lambda>r'. key r' = key r) rows)}"
proof (intro set_eqI iffI)
  fix x assume "x \<in> endpoints (group_edges t (groupby_list key col rows))"
  then obtain grp where grp: "grp \<in> set (groupby_list key col rows)"
    and len: "2 \<le> length (snd grp)" and x: "x \<in> set (snd grp)"
    unfolding endpoints_group_edges by blast
  from grp obtain k where k: "grp = (k, map col (filter (\<lambda>r. key r = k) rows))"
    unfolding set_groupby_list by blast
  from x k obtain r where r: "r \<in> set rows" "key r = k" "x = col r" by auto
  from len k r(2) have "2 \<le> length (filter (\<lambda>r'. key r' = key r) rows)" by simp
  with r show "x \<in> {col r | r. r \<in> set rows \<and> 2 \<le> length (filter (\<lambda>r'. key r' = key r) rows)}"
    by blast
next
  fix x assume "x \<in> {col r | r. r \<in> set rows \<and> 2 \<le> length (filter (\<lambda>r'. key r' = key r) rows)}"
  then obtain r where r: "r \<in> set rows" "x = col r"
    and len: "2 \<le> length (filter (\<lambda>r'. key r' = key r) rows)" by blast
  let ?grp = "(key r, map col (filter (\<lambda>r'. key r' = key r) rows))"
  from r(1) have "?grp \<in> set (groupby_list key col rows)"
    unfolding set_groupby_list by blast
  moreover from len have "2 \<le> length (snd ?grp)" by simp
  moreover from r have "x \<in> set (snd ?grp)" by auto
  ultimately show "x \<in> endpoints (group_edges t (groupby_list key col rows))"
    unfolding endpoints_group_edges by blast
qed

lemma linked_ids_alt:
  "linked_ids dfs =
     {ia_account_id r | r. r \<in> set (identifiers dfs) \<and> ia_identifier_type r = ''IP Address''
        \<and> 2 \<le> length (filter (\<lambda>r'. ia_identifier_type r' = ''IP Address''
                                     \<and> ia_identifier_value r' = ia_identifier_value r)
                           (identifiers dfs))}
     \<union> {ia_account_id r | r. r \<in> set (identifiers dfs)
        \<and> ia_identifier_type r \<in> set [''Device MAC'', ''IMEI'']
        \<and> 2 \<le> length (filter (\<lambda>r'. ia_identifier_type r' \<in> set [''Device MAC'', ''IMEI'']
                                     \<and> ia_identifier_value r' = ia_identifier_value r)
                           (identifiers dfs))}
     \<union> {ta_account_id r | r. r \<in> set (touchpoints dfs)
        \<and> 2 \<le> length (filter (\<lambda>r'. ta_touchpoint_id r' = ta_touchpoint_id r) (touchpoints dfs))}"
  unfolding linked_ids_def by (simp only: set_map set_filter) blast

lemma endpoints_all_edges:
  "endpoints (all_edges dfs)
     = linked_ids dfs \<union> sender ` set (transactions dfs) \<union> receiver ` set (transactions dfs)"
  unfolding all_edges_def endpoints_append ip_grps_def dev_grps_def tp_grps_def
    endpoints_grouped endpoints_money linked_ids_alt
  by (auto simp: conj_commute)

lemma node_ids_exact:
  "set (node_ids (build_graph dfs))
     = set (account_ids_of dfs) \<union> sender ` set (transactions dfs)
       \<union> receiver ` set (transactions dfs) \<union> linked_ids dfs"
  unfolding node_ids_build_graph endpoints_all_edges set_account_ids_of by blast

lemma own_flags_as_filter:
  "snd (own_flags G (detect_loops G (account_ids_of dfs))
          (high_velocity_senders (transactions dfs)) acc)
     = map (\<lambda>k. \<lparr>flag = reported_label G acc k, weight = FLAG_WEIGHTS k\<rparr>)
         (filter (flag_fires G dfs acc) report_order)"
  unfolding own_flags_snd length_in_money length_out_money
  by (simp add: report_order_def etc_pos in_money_nonempty out_money_nonempty high_velocity_iff)

lemma sum_filter_flag_keys:
  "sum_list (map FLAG_WEIGHTS (filter P flag_keys)) =
     (if P fw_shared_ip then 25 else 0)
   + (if P fw_shared_device then 30 else 0)
   + (if P fw_shared_touchpoint then 15 else 0)
   + (if P fw_money_received_from_flagged then 20 else 0)
   + (if P fw_money_sent_to_flagged then 20 else 0)
   + (if P fw_transaction_loop then 40 else 0)
   + (if P fw_high_velocity then 20 else 0)"
  by (simp add: flag_keys_def)

lemma own_flags_as_sum:
  "fst (own_flags G (detect_loops G (account_ids_of dfs))
          (high_velocity_senders (transactions dfs)) acc)
     = sum_list (map FLAG_WEIGHTS (filter (flag_fires G dfs acc) flag_keys))"
  unfolding own_flags_fst sum_filter_flag_keys flag_fires.simps
    etc_pos in_money_nonempty out_money_nonempty high_velocity_iff
  by (rule refl)

lemma flag_kind_reported: "flag_kind (reported_label G acc k) = k"
  by (cases k) simp_all

lemma distinct_report_order: "distinct report_order \<and> set report_order = UNIV"
proof -
  have "x \<in> set report_order" for x
    by (cases x) (simp_all add: report_order_def)
  then show ?thesis by (auto simp: report_order_def)
qed


section \<open>Claims\<close>

text \<open>
  C1.  The classifier is meant to give every non-negative score one of four tiers, with
  30.0 CLEAN, 30.1 WATCH, 90.0 SUSPICIOUS and 90.1 BLOCK.  The thresholds are the closed
  integer intervals [0,30], [31,60], [61,90], [91,9999], and a score that lies in none of
  them falls through to BLOCK: so does 30.1, and so does the final score 30.5 that the
  pipeline computes for account C of the sample tables (own score 20, contamination 10.5).
\<close>

theorem classify_gap_falls_to_block:
  "classify (301 / 10) = BLOCK
   \<and> classify 30 = CLEAN \<and> classify 31 = WATCH
   \<and> compute_scores (build_graph flow_tables) flow_tables
        = Inr (score_table (build_graph flow_tables) flow_tables)
   \<and> (''C'', score_for (build_graph flow_tables) flow_tables ''C'')
        \<in> set (score_table (build_graph flow_tables) flow_tables)
   \<and> own_score (score_for (build_graph flow_tables) flow_tables ''C'') = 20
   \<and> final_score (score_for (build_graph flow_tables) flow_tables ''C'') = 61 / 2
   \<and> classification (score_for (build_graph flow_tables) flow_tables ''C'') = BLOCK"
  by (simp add: classify_eq compute_scores_build_graph score_table_mem flow_ids
        flow_own_score flow_final flow_class)

text \<open>
  C2 (as amended).  For every account of the score table the own score lies between 0 and
  170; 170 is the sum of the seven flag weights, and the own score is 170 exactly when all
  seven flags are reported.
\<close>

theorem own_score_range:
  assumes "compute_scores G dfs = Inr tbl" and "(acc, r) \<in> set tbl"
  shows "0 \<le> own_score r \<and> own_score r \<le> 170
    \<and> distinct flag_keys \<and> set flag_keys = UNIV
    \<and> sum_list (map FLAG_WEIGHTS flag_keys) = 170
    \<and> (own_score r = 170 \<longleftrightarrow> length (flags r) = 7)"
proof -
  from assms have r: "r = score_for G dfs acc"
    by (rule compute_scores_entry)
  show ?thesis
    unfolding r own_score_score_for flags_score_for
    using own_flags_le own_flags_170 flag_keys_all flag_weights_total by simp
qed

theorem own_score_range_witness:
  "compute_scores (build_graph ring_tables) ring_tables
     = Inr (score_table (build_graph ring_tables) ring_tables)
   \<and> (''A'', score_for (build_graph ring_tables) ring_tables ''A'')
        \<in> set (score_table (build_graph ring_tables) ring_tables)
   \<and> own_score (score_for (build_graph ring_tables) ring_tables ''A'') \<le> 170
   \<and> (own_score (score_for (build_graph ring_tables) ring_tables ''A'') = 170 \<longleftrightarrow>
        length (flags (score_for (build_graph ring_tables) ring_tables ''A'')) = 7)"
proof -
  have h1: "compute_scores (build_graph ring_tables) ring_tables
              = Inr (score_table (build_graph ring_tables) ring_tables)"
    by (rule compute_scores_build_graph)
  have h2: "(''A'', score_for (build_graph ring_tables) ring_tables ''A'')
              \<in> set (score_table (build_graph ring_tables) ring_tables)"
    by (simp add: score_table_mem ring_ids)
  from own_score_range[OF h1 h2] h1 h2 show ?thesis
    by blast
qed

text \<open>
  The claim as stated fails: in the ring tables all seven flags fire for account A, and
  its own score is 170, the sum of the seven weights, not 190.
\<close>

theorem all_seven_flags_score_170:
  "(''A'', score_for (build_graph ring_tables) ring_tables ''A'')
      \<in> set (score_table (build_graph ring_tables) ring_tables)
   \<and> length (flags (score_for (build_graph ring_tables) ring_tables ''A'')) = 7
   \<and> own_score (score_for (build_graph ring_tables) ring_tables ''A'') = 170
   \<and> own_score (score_for (build_graph ring_tables) ring_tables ''A'') \<noteq> 190
   \<and> sum_list (map FLAG_WEIGHTS flag_keys) = 170
   \<and> sum_list (map FLAG_WEIGHTS flag_keys) \<noteq> 190"
  by (simp add: score_table_mem ring_ids ring_own_score ring_flags flag_weights_total)

text \<open>
  C3 (as amended).  The builder validates nothing and the pipeline never fails: for every
  input a score table is returned.  The nodes of the graph are the listed accounts, the
  senders and receivers of the transactions, and the accounts of the assignment rows that
  a second row is linked to: an IP-address row with the value of a second IP-address row,
  a device row (Device MAC or IMEI) with the value of a second device row, a touchpoint
  row with the touchpoint of a second row.  A node whose id is not a listed account has
  no attributes.
\<close>

theorem unknown_ids_become_bare_nodes:
  "compute_scores (build_graph dfs) dfs = Inr (score_table (build_graph dfs) dfs)
   \<and> set (node_ids (build_graph dfs))
       = set (account_ids_of dfs) \<union> sender ` set (transactions dfs)
         \<union> receiver ` set (transactions dfs) \<union> linked_ids dfs
   \<and> (\<forall>x\<in>set (node_ids (build_graph dfs)).
         x \<notin> set (account_ids_of dfs) \<longrightarrow>
           (x, None) \<in> set (g_nodes (build_graph dfs))
           \<and> (\<forall>a. (x, Some a) \<notin> set (g_nodes (build_graph dfs))))"
proof (intro conjI ballI impI)
  show "compute_scores (build_graph dfs) dfs = Inr (score_table (build_graph dfs) dfs)"
    by (rule compute_scores_build_graph)
next
  show "set (node_ids (build_graph dfs))
       = set (account_ids_of dfs) \<union> sender ` set (transactions dfs)
         \<union> receiver ` set (transactions dfs) \<union> linked_ids dfs"
    by (rule node_ids_exact)
next
  fix x assume x: "x \<in> set (node_ids (build_graph dfs))" "x \<notin> set (account_ids_of dfs)"
  then have n: "x \<notin> acc_id ` set (accounts dfs)"
    by (simp add: set_account_ids_of)
  from dangling_node_no_attrs[OF x(1) n]
  show "(x, None) \<in> set (g_nodes (build_graph dfs))"
    and "\<forall>a. (x, Some a) \<notin> set (g_nodes (build_graph dfs))"
    by simp_all
qed

theorem unknown_ids_become_bare_nodes_witness:
  "''X'' \<in> linked_ids linked_tables
   \<and> ''X'' \<notin> set (account_ids_of linked_tables)
   \<and> ''X'' \<in> set (node_ids (build_graph linked_tables))
   \<and> (''X'', None) \<in> set (g_nodes (build_graph linked_tables))
   \<and> ''Y'' \<notin> linked_ids linked_tables
   \<and> ''Y'' \<notin> set (node_ids (build_graph linked_tables))
   \<and> compute_scores (build_graph linked_tables) linked_tables
        = Inr (score_table (build_graph linked_tables) linked_tables)"
proof -
  have h1: "''X'' \<in> linked_ids linked_tables"
    by (simp add: linked_X)
  have h2: "''X'' \<notin> set (account_ids_of linked_tables)"
    "''Y'' \<notin> set (account_ids_of linked_tables)"
    by (simp_all add: linked_ids_eval)
  have h3: "''Y'' \<notin> linked_ids linked_tables"
    by (simp add: linked_Y)
  have h4: "''Y'' \<notin> sender ` set (transactions linked_tables)
              \<union> receiver ` set (transactions linked_tables)"
    by (simp add: linked_tables_def)
  from unknown_ids_become_bare_nodes[of linked_tables] h1 h2 h3 h4 show ?thesis
    by blast
qed

text \<open>
  The claim as stated fails: the only transaction of these tables is sent by X, which is
  not a listed account; the pipeline returns a score table all the same, and the graph has
  the node X, without attributes.
\<close>

theorem unknown_sender_not_rejected:
  "account_ids_of dangling_tables = [''A'']
   \<and> transactions dangling_tables = [txn ''t1'' ''X'' ''A'']
   \<and> g_nodes (build_graph dangling_tables)
        = [(''A'', Some (account_attrs (acct ''A''))), (''X'', None)]
   \<and> compute_scores (build_graph dangling_tables) dangling_tables
        = Inr (score_table (build_graph dangling_tables) dangling_tables)
   \<and> map fst (score_table (build_graph dangling_tables) dangling_tables) = [''A'']"
  by (simp add: dangling_ids dangling_nodes compute_scores_build_graph score_table_keys)
     (simp add: dangling_tables_def)




text \<open>
  C5.  An account is loop-flagged exactly when it lies on a directed cycle of three or
  more pairwise distinct listed accounts, each with a money_flow edge to the next and the
  last with one to the first; edges of other types and edges that touch an unlisted node
  do not count.  An account all of whose money-flow edges go to or come from one single
  other party (the back-and-forth A to B, B to A) is not loop-flagged.  The loop
  membership of a score record is the detector's answer.
\<close>

theorem loop_membership_is_three_party_cycle:
  "(x \<in> set (detect_loops G ids) \<longleftrightarrow>
      (\<exists>c. money_cycle G ids c \<and> 3 \<le> length c \<and> x \<in> set c))
   \<and> ((\<forall>e\<in>set (g_edges G). e_edge_type e = money_flow \<longrightarrow>
          (e_src e = x \<longrightarrow> e_dst e = y) \<and> (e_dst e = x \<longrightarrow> e_src e = y))
        \<longrightarrow> x \<notin> set (detect_loops G ids))
   \<and> (compute_scores G dfs = Inr tbl \<longrightarrow> (x, r) \<in> set tbl \<longrightarrow>
        (in_loop r \<longleftrightarrow> x \<in> set (detect_loops G (account_ids_of dfs))))"
proof (intro conjI impI)
  show "x \<in> set (detect_loops G ids) \<longleftrightarrow>
          (\<exists>c. money_cycle G ids c \<and> 3 \<le> length c \<and> x \<in> set c)"
    by (rule detect_loops_iff)
next
  assume "\<forall>e\<in>set (g_edges G). e_edge_type e = money_flow \<longrightarrow>
            (e_src e = x \<longrightarrow> e_dst e = y) \<and> (e_dst e = x \<longrightarrow> e_src e = y)"
  then show "x \<notin> set (detect_loops G ids)"
    by (rule single_partner_no_loop)
next
  assume "compute_scores G dfs = Inr tbl" "(x, r) \<in> set tbl"
  then have "r = score_for G dfs x"
    by (rule compute_scores_entry)
  then show "in_loop r \<longleftrightarrow> x \<in> set (detect_loops G (account_ids_of dfs))"
    by (simp add: in_loop_score_for)
qed

theorem loop_membership_is_three_party_cycle_witness:
  "money_cycle (build_graph ring_tables) (account_ids_of ring_tables) [''A'', ''B'', ''C'']
   \<and> ''A'' \<in> set (detect_loops (build_graph ring_tables) (account_ids_of ring_tables))
   \<and> map (\<lambda>e. (e_src e, e_dst e))
         (filter (\<lambda>e. e_edge_type e = money_flow \<and> (e_src e = ''D'' \<or> e_dst e = ''D''))
            (g_edges (build_graph ring_tables)))
       = [(''D'', ''E''), (''E'', ''D'')]
   \<and> ''D'' \<notin> set (detect_loops (build_graph ring_tables) (account_ids_of ring_tables))
   \<and> in_loop (score_for (build_graph ring_tables) ring_tables ''A'')"
proof -
  have h0: "map (\<lambda>e. (e_src e, e_dst e))
         (filter (\<lambda>e. e_edge_type e = money_flow \<and> (e_src e = ''D'' \<or> e_dst e = ''D''))
            (g_edges (build_graph ring_tables)))
       = [(''D'', ''E''), (''E'', ''D'')]"
    by (simp add: ring_edges shared_edge_def money_edge_def txn_def)
  have h1: "money_cycle (build_graph ring_tables) (account_ids_of ring_tables)
              [''A'', ''B'', ''C'']"
    by code_simp
  have h2: "\<forall>e\<in>set (g_edges (build_graph ring_tables)). e_edge_type e = money_flow \<longrightarrow>
              (e_src e = ''D'' \<longrightarrow> e_dst e = ''E'') \<and> (e_dst e = ''D'' \<longrightarrow> e_src e = ''E'')"
    by (simp add: ring_edges shared_edge_def money_edge_def txn_def)
  have h3: "compute_scores (build_graph ring_tables) ring_tables
              = Inr (score_table (build_graph ring_tables) ring_tables)"
    by (rule compute_scores_build_graph)
  have h4: "(''A'', score_for (build_graph ring_tables) ring_tables ''A'')
              \<in> set (score_table (build_graph ring_tables) ring_tables)"
    by (simp add: score_table_mem ring_ids)
  have l: "3 \<le> length [''A'', ''B'', ''C''] \<and> ''A'' \<in> set [''A'', ''B'', ''C'']"
    by simp
  from loop_membership_is_three_party_cycle[of "''A''" "build_graph ring_tables"
      "account_ids_of ring_tables" _ ring_tables
      "score_table (build_graph ring_tables) ring_tables"
      "score_for (build_graph ring_tables) ring_tables ''A''"] h1 l h3 h4
  have a: "''A'' \<in> set (detect_loops (build_graph ring_tables) (account_ids_of ring_tables))"
    and b: "in_loop (score_for (build_graph ring_tables) ring_tables ''A'')"
    by blast+
  from loop_membership_is_three_party_cycle[of "''D''" "build_graph ring_tables"
      "account_ids_of ring_tables" "''E''"] h2
  have c: "''D'' \<notin> set (detect_loops (build_graph ring_tables) (account_ids_of ring_tables))"
    by blast
  from h1 a h0 c b show ?thesis by blast
qed

text \<open>
  C6.  For every account of the score table, the reported flags are exactly the flags of
  the rule table that fire for the account, each once, in the fixed order, each with its
  weight and its text; so no flag is counted twice and no flag that fires is omitted.  The
  own score is the sum of the weights of the reported flags, which is the sum of the
  weights of the flags that fire.
\<close>

theorem own_score_is_sum_of_reported_flags:
  assumes "compute_scores G dfs = Inr tbl" and "(acc, r) \<in> set tbl"
  shows "flags r = map (\<lambda>k. \<lparr>flag = reported_label G acc k, weight = FLAG_WEIGHTS k\<rparr>)
                     (filter (flag_fires G dfs acc) report_order)
    \<and> map (flag_kind \<circ> flag) (flags r) = filter (flag_fires G dfs acc) report_order
    \<and> distinct (map (flag_kind \<circ> flag) (flags r))
    \<and> (\<forall>k. flag_fires G dfs acc k \<longleftrightarrow> k \<in> set (map (flag_kind \<circ> flag) (flags r)))
    \<and> (\<forall>f\<in>set (flags r). weight f = FLAG_WEIGHTS (flag_kind (flag f)))
    \<and> own_score r = sum_list (map weight (flags r))
    \<and> own_score r = sum_list (map FLAG_WEIGHTS (filter (flag_fires G dfs acc) flag_keys))"
proof -
  from assms have r: "r = score_for G dfs acc"
    by (rule compute_scores_entry)
  have fl: "flags r = map (\<lambda>k. \<lparr>flag = reported_label G acc k, weight = FLAG_WEIGHTS k\<rparr>)
                     (filter (flag_fires G dfs acc) report_order)"
    unfolding r flags_score_for by (rule own_flags_as_filter)
  have kinds: "map (flag_kind \<circ> flag) (flags r) = filter (flag_fires G dfs acc) report_order"
    unfolding fl by (simp add: comp_def flag_kind_reported)
  have d: "distinct (map (flag_kind \<circ> flag) (flags r))"
    unfolding kinds using distinct_report_order by simp
  have all: "\<forall>k. flag_fires G dfs acc k \<longleftrightarrow> k \<in> set (map (flag_kind \<circ> flag) (flags r))"
    unfolding kinds using distinct_report_order by simp
  have w: "\<forall>f\<in>set (flags r). weight f = FLAG_WEIGHTS (flag_kind (flag f))"
    unfolding fl by (auto simp: flag_kind_reported)
  have s1: "own_score r = sum_list (map weight (flags r))"
    unfolding r own_score_score_for flags_score_for by (rule own_flags_sum)
  have s2: "own_score r = sum_list (map FLAG_WEIGHTS (filter (flag_fires G dfs acc) flag_keys))"
    unfolding r own_score_score_for by (rule own_flags_as_sum)
  from fl kinds d all w s1 s2 show ?thesis by blast
qed

theorem own_score_is_sum_of_reported_flags_witness:
  "compute_scores (build_graph flow_tables) flow_tables
     = Inr (score_table (build_graph flow_tables) flow_tables)
   \<and> (''A'', score_for (build_graph flow_tables) flow_tables ''A'')
        \<in> set (score_table (build_graph flow_tables) flow_tables)
   \<and> map (flag_kind \<circ> flag) (flags (score_for (build_graph flow_tables) flow_tables ''A''))
       = filter (flag_fires (build_graph flow_tables) flow_tables ''A'') report_order
   \<and> own_score (score_for (build_graph flow_tables) flow_tables ''A'')
       = sum_list (map weight (flags (score_for (build_graph flow_tables) flow_tables ''A'')))
   \<and> own_score (score_for (build_graph flow_tables) flow_tables ''A'') = 35"
proof -
  have h1: "compute_scores (build_graph flow_tables) flow_tables
              = Inr (score_table (build_graph flow_tables) flow_tables)"
    by (rule compute_scores_build_graph)
  have h2: "(''A'', score_for (build_graph flow_tables) flow_tables ''A'')
              \<in> set (score_table (build_graph flow_tables) flow_tables)"
    by (simp add: score_table_mem flow_ids)
  from own_score_is_sum_of_reported_flags[OF h1 h2] h1 h2 flow_own_score(1) show ?thesis
    by blast
qed

text \<open>
  C7.  In every graph that the builder produces, an edge of type shared_ip, shared_device
  or shared_touchpoint from A to B comes with an edge of the same type from B to A.
\<close>

theorem shared_edges_are_reciprocated:
  assumes "e \<in> set (g_edges (build_graph dfs))"
    and "e_edge_type e \<in> {shared_ip, shared_device, shared_touchpoint}"
  shows "\<exists>e'\<in>set (g_edges (build_graph dfs)).
           e_src e' = e_dst e \<and> e_dst e' = e_src e \<and> e_edge_type e' = e_edge_type e"
proof -
  from assms(2) have "e_edge_type e \<noteq> money_flow" by auto
  with assms(1) have
    "shared_edge (e_edge_type e) (e_dst e) (e_src e) \<in> set (g_edges (build_graph dfs))"
    by (rule shared_edges_sym)
  then show ?thesis
    by (rule rev_bexI) (simp add: shared_edge_def)
qed

theorem shared_edges_are_reciprocated_witness:
  "shared_edge shared_touchpoint ''A'' ''B'' \<in> set (g_edges (build_graph flow_tables))
   \<and> e_edge_type (shared_edge shared_touchpoint ''A'' ''B'')
        \<in> {shared_ip, shared_device, shared_touchpoint}
   \<and> (\<exists>e'\<in>set (g_edges (build_graph flow_tables)).
         e_src e' = ''B'' \<and> e_dst e' = ''A'' \<and> e_edge_type e' = shared_touchpoint)"
proof -
  have h1: "shared_edge shared_touchpoint ''A'' ''B'' \<in> set (g_edges (build_graph flow_tables))"
    by (simp add: flow_edges)
  have h2: "e_edge_type (shared_edge shared_touchpoint ''A'' ''B'')
              \<in> {shared_ip, shared_device, shared_touchpoint}"
    by (simp add: shared_edge_def)
  from shared_edges_are_reciprocated[OF h1 h2] h1 h2 show ?thesis
    by (simp add: shared_edge_def)
qed

text \<open>
  C8.  For every account of the score table, the contamination is 0.0 exactly when the
  account has no account-type neighbour: every neighbour is touched by an edge, so its
  own score is at least 15, and the contamination of an account with a neighbour is at
  least 4.5.
\<close>

theorem contamination_zero_iff_no_neighbour:
  assumes "compute_scores G dfs = Inr tbl" and "(acc, r) \<in> set tbl"
  shows "(contamination r = 0 \<longleftrightarrow> neighbours G (account_ids_of dfs) acc = {})
    \<and> (\<forall>n\<in>neighbours G (account_ids_of dfs) acc. 15 \<le> own_score_in tbl n)
    \<and> (neighbours G (account_ids_of dfs) acc \<noteq> {} \<longrightarrow> 9 / 2 \<le> contamination r)"
proof -
  from assms have r: "r = score_for G dfs acc" and tbl: "tbl = score_table G dfs"
    by (rule compute_scores_entry)+
  have own: "15 \<le> own_score_in tbl n" if "n \<in> neighbours G (account_ids_of dfs) acc" for n
  proof -
    from that obtain e where n: "n \<in> set (account_ids_of dfs)"
      and e: "e \<in> set (g_edges G)" "e_src e = n \<or> e_dst e = n"
      by (auto simp: neighbours_def)
    from e have "15 \<le> own_score (score_for G dfs n)"
      unfolding own_score_score_for by (rule own_flags_ge_15)
    with n show ?thesis by (simp add: tbl own_score_in_score_table)
  qed
  have pos: "9 / 2 \<le> contamination r" if "neighbours G (account_ids_of dfs) acc \<noteq> {}"
  proof -
    from that have ne: "nbrs G (account_ids_of dfs) acc \<noteq> []"
      using set_nbrs[of G "account_ids_of dfs" acc] by auto
    have "\<forall>n\<in>set (nbrs G (account_ids_of dfs) acc). 15 \<le> own_score (score_for G dfs n)"
      using own by (simp add: set_nbrs tbl neighbours_def own_score_in_score_table)
    with ne show ?thesis
      unfolding r contamination_score_for by (rule contamination_of_ge)
  qed
  from own pos show ?thesis
    unfolding r by (simp add: contamination_zero_iff)
qed

theorem contamination_zero_iff_no_neighbour_witness:
  "compute_scores (build_graph flow_tables) flow_tables
     = Inr (score_table (build_graph flow_tables) flow_tables)
   \<and> (''A'', score_for (build_graph flow_tables) flow_tables ''A'')
        \<in> set (score_table (build_graph flow_tables) flow_tables)
   \<and> ''B'' \<in> neighbours (build_graph flow_tables) (account_ids_of flow_tables) ''A''
   \<and> 15 \<le> own_score_in (score_table (build_graph flow_tables) flow_tables) ''B''
   \<and> contamination (score_for (build_graph flow_tables) flow_tables ''A'') \<noteq> 0
   \<and> 9 / 2 \<le> contamination (score_for (build_graph flow_tables) flow_tables ''A'')"
proof -
  have h1: "compute_scores (build_graph flow_tables) flow_tables
              = Inr (score_table (build_graph flow_tables) flow_tables)"
    by (rule compute_scores_build_graph)
  have h2: "(''A'', score_for (build_graph flow_tables) flow_tables ''A'')
              \<in> set (score_table (build_graph flow_tables) flow_tables)"
    by (simp add: score_table_mem flow_ids)
  have h3: "''B'' \<in> neighbours (build_graph flow_tables) (account_ids_of flow_tables) ''A''"
    by (simp add: neighbours_def flow_edges flow_ids shared_edge_def)
  from contamination_zero_iff_no_neighbour[OF h1 h2] h1 h2 h3 show ?thesis
    by blast
qed

text \<open>
  C9 (as amended).  A transaction whose sender equals its receiver is not rejected: the
  pipeline returns a score table, the transaction is a money_flow edge from the account to
  itself, and when the account is listed it fires the received-money and the sent-money
  flag and makes the account its own neighbour.  Loop detection is not influenced: the
  loop-flagged accounts are those of the same tables without such transactions.
\<close>

theorem self_transaction_is_scored:
  assumes "row \<in> set (transactions dfs)" and "sender row = receiver row"
  shows "compute_scores (build_graph dfs) dfs = Inr (score_table (build_graph dfs) dfs)
    \<and> money_edge row \<in> set (g_edges (build_graph dfs))
    \<and> e_src (money_edge row) = sender row \<and> e_dst (money_edge row) = sender row
    \<and> e_edge_type (money_edge row) = money_flow
    \<and> (sender row \<in> set (account_ids_of dfs) \<longrightarrow>
         (\<exists>n. 0 < n \<and> \<lparr>flag = Received_money n, weight = 20\<rparr>
                \<in> set (flags (score_for (build_graph dfs) dfs (sender row))))
         \<and> (\<exists>m. 0 < m \<and> \<lparr>flag = Sent_money m, weight = 20\<rparr>
                \<in> set (flags (score_for (build_graph dfs) dfs (sender row))))
         \<and> sender row \<in> neighbours (build_graph dfs) (account_ids_of dfs) (sender row))
    \<and> set (detect_loops (build_graph dfs) (account_ids_of dfs))
        = set (detect_loops (build_graph (without_self_transactions dfs)) (account_ids_of dfs))"
proof -
  let ?G = "build_graph dfs" and ?a = "sender row"
  have edge: "money_edge row \<in> set (g_edges ?G)"
    using assms(1) by (simp add: g_edges_build_graph all_edges_def)
  have ends: "e_src (money_edge row) = ?a" "e_dst (money_edge row) = ?a"
    "e_edge_type (money_edge row) = money_flow"
    using assms(2) by (simp_all add: money_edge_def)
  from edge ends have inm: "in_money ?G ?a \<noteq> []" and outm: "out_money ?G ?a \<noteq> []"
    unfolding in_money_nonempty out_money_nonempty by blast+
  let ?la = "detect_loops ?G (account_ids_of dfs)"
    and ?hv = "high_velocity_senders (transactions dfs)"
  from inm have recv: "0 < length (in_money ?G ?a)
      \<and> \<lparr>flag = Received_money (length (in_money ?G ?a)), weight = 20\<rparr>
          \<in> set (flags (score_for ?G dfs ?a))"
    by (simp add: flags_score_for own_flags_mem)
  from outm have sent: "0 < length (out_money ?G ?a)
      \<and> \<lparr>flag = Sent_money (length (out_money ?G ?a)), weight = 20\<rparr>
          \<in> set (flags (score_for ?G dfs ?a))"
    by (simp add: flags_score_for own_flags_mem)
  have nb: "?a \<in> neighbours ?G (account_ids_of dfs) ?a" if "?a \<in> set (account_ids_of dfs)"
    using that edge ends by (auto simp: neighbours_def)
  have loops: "set (detect_loops ?G (account_ids_of dfs))
        = set (detect_loops (build_graph (without_self_transactions dfs)) (account_ids_of dfs))"
    by (simp add: detect_loops_without_self)
  from edge ends recv sent nb loops compute_scores_build_graph[of dfs] show ?thesis
    by blast
qed

theorem self_transaction_is_scored_witness:
  "txn ''t1'' ''A'' ''A'' \<in> set (transactions self_tables)
   \<and> sender (txn ''t1'' ''A'' ''A'') = receiver (txn ''t1'' ''A'' ''A'')
   \<and> sender (txn ''t1'' ''A'' ''A'') \<in> set (account_ids_of self_tables)
   \<and> compute_scores (build_graph self_tables) self_tables
        = Inr (score_table (build_graph self_tables) self_tables)
   \<and> money_edge (txn ''t1'' ''A'' ''A'') \<in> set (g_edges (build_graph self_tables))
   \<and> (\<exists>n. 0 < n \<and> \<lparr>flag = Received_money n, weight = 20\<rparr>
          \<in> set (flags (score_for (build_graph self_tables) self_tables
                           (sender (txn ''t1'' ''A'' ''A'')))))"
proof -
  have h1: "txn ''t1'' ''A'' ''A'' \<in> set (transactions self_tables)"
    by (simp add: self_tables_def)
  have h2: "sender (txn ''t1'' ''A'' ''A'') = receiver (txn ''t1'' ''A'' ''A'')"
    by (simp add: txn_def)
  have h3: "sender (txn ''t1'' ''A'' ''A'') \<in> set (account_ids_of self_tables)"
    by (simp add: self_ids txn_def)
  from self_transaction_is_scored[OF h1 h2] h1 h2 h3 show ?thesis
    by blast
qed

text \<open>
  The claim as stated fails: the only transaction of these tables goes from A to A; the
  pipeline returns a score table, the graph has the money_flow edge from A to A, and the
  flags of A are the received-money and the sent-money flag, with own score 40.
\<close>

theorem self_transaction_not_rejected:
  "transactions self_tables = [txn ''t1'' ''A'' ''A'']
   \<and> sender (txn ''t1'' ''A'' ''A'') = receiver (txn ''t1'' ''A'' ''A'')
   \<and> compute_scores (build_graph self_tables) self_tables
        = Inr (score_table (build_graph self_tables) self_tables)
   \<and> map fst (score_table (build_graph self_tables) self_tables) = [''A'']
   \<and> g_edges (build_graph self_tables) = [money_edge (txn ''t1'' ''A'' ''A'')]
   \<and> flags (score_for (build_graph self_tables) self_tables ''A'')
        = [\<lparr>flag = Received_money 1, weight = 20\<rparr>, \<lparr>flag = Sent_money 1, weight = 20\<rparr>]
   \<and> own_score (score_for (build_graph self_tables) self_tables ''A'') = 40"
  by (simp add: compute_scores_build_graph score_table_keys self_ids self_edges
        flags_score_for own_score_score_for self_loops self_hv self_own)
     (simp add: self_tables_def txn_def)

text \<open>
  C10 (as amended).  The pipeline always returns a score table, and the keys of a score
  table are exactly the ids of the accounts relation, each once, each with the record of
  that account; an id that is not listed has no score record.  An unlisted id is a graph
  node exactly when it is the sender or the receiver of a transaction, or the account of
  an assignment row that a second row is linked to (an IP-address row with the value of a
  second IP-address row, a device row with the value of a second device row, a touchpoint
  row with the touchpoint of a second row); the unlisted id of an assignment row that no
  second row is linked to is not a node.
\<close>

theorem score_table_keys_are_the_accounts:
  "compute_scores (build_graph dfs) dfs = Inr (score_table (build_graph dfs) dfs)
   \<and> (compute_scores G dfs = Inr tbl \<longrightarrow>
        distinct (map fst tbl) \<and> set (map fst tbl) = acc_id ` set (accounts dfs)
        \<and> (\<forall>(a, r)\<in>set tbl. sr_account_id r = a)
        \<and> (\<forall>x. x \<notin> acc_id ` set (accounts dfs) \<longrightarrow> map_of tbl x = None))
   \<and> (\<forall>x. x \<notin> acc_id ` set (accounts dfs) \<longrightarrow>
         (x \<in> set (node_ids (build_graph dfs)) \<longleftrightarrow>
            x \<in> sender ` set (transactions dfs) \<union> receiver ` set (transactions dfs)
                \<union> linked_ids dfs))"
proof (intro conjI impI allI)
  show "compute_scores (build_graph dfs) dfs = Inr (score_table (build_graph dfs) dfs)"
    by (rule compute_scores_build_graph)
next
  assume "compute_scores G dfs = Inr tbl"
  then have tbl: "tbl = score_table G dfs"
    by (simp add: compute_scores_Inr)
  show "distinct (map fst tbl)"
    by (simp add: tbl score_table_keys account_ids_of_def)
  show "set (map fst tbl) = acc_id ` set (accounts dfs)"
    by (simp add: tbl score_table_keys set_account_ids_of)
  show "\<forall>(a, r)\<in>set tbl. sr_account_id r = a"
    by (auto simp: tbl score_table_mem sr_account_id_score_for)
  show "map_of tbl x = None" if "x \<notin> acc_id ` set (accounts dfs)" for x
    using that by (simp add: tbl map_of_score_table set_account_ids_of)
next
  fix x assume "x \<notin> acc_id ` set (accounts dfs)"
  then show "x \<in> set (node_ids (build_graph dfs)) \<longleftrightarrow>
            x \<in> sender ` set (transactions dfs) \<union> receiver ` set (transactions dfs)
                \<union> linked_ids dfs"
    unfolding node_ids_exact set_account_ids_of by blast
qed

theorem score_table_keys_are_the_accounts_witness:
  "compute_scores (build_graph linked_tables) linked_tables
     = Inr (score_table (build_graph linked_tables) linked_tables)
   \<and> set (map fst (score_table (build_graph linked_tables) linked_tables))
       = acc_id ` set (accounts linked_tables)
   \<and> ''X'' \<notin> acc_id ` set (accounts linked_tables)
   \<and> ''X'' \<in> linked_ids linked_tables
   \<and> ''X'' \<in> set (node_ids (build_graph linked_tables))
   \<and> map_of (score_table (build_graph linked_tables) linked_tables) ''X'' = None
   \<and> ''Y'' \<notin> acc_id ` set (accounts linked_tables)
   \<and> ''Y'' \<notin> linked_ids linked_tables
   \<and> ''Y'' \<notin> set (node_ids (build_graph linked_tables))"
proof -
  have h1: "compute_scores (build_graph linked_tables) linked_tables
              = Inr (score_table (build_graph linked_tables) linked_tables)"
    by (rule compute_scores_build_graph)
  have h2: "''X'' \<notin> acc_id ` set (accounts linked_tables)"
    "''Y'' \<notin> acc_id ` set (accounts linked_tables)"
    by (simp_all add: linked_tables_def acct_def)
  have h3: "''X'' \<in> linked_ids linked_tables" "''Y'' \<notin> linked_ids linked_tables"
    by (simp_all add: linked_X linked_Y)
  have h4: "''Y'' \<notin> sender ` set (transactions linked_tables)
              \<union> receiver ` set (transactions linked_tables)"
    by (simp add: linked_tables_def)
  from score_table_keys_are_the_accounts[of linked_tables "build_graph linked_tables"
      "score_table (build_graph linked_tables) linked_tables"] h1 h2 h3 h4
  show ?thesis by blast
qed

text \<open>
  The claim as stated fails: in these tables the id X occurs only in an identifier
  assignment, whose value no other row shares; X gets no score record, and it is not a
  node of the graph either.
\<close>

theorem unshared_assignment_makes_no_node:
  "identifiers unshared_tables = [ident ''X'' ''IP Address'' ''i1'']
   \<and> account_ids_of unshared_tables = [''A'']
   \<and> map fst (score_table (build_graph unshared_tables) unshared_tables) = [''A'']
   \<and> node_ids (build_graph unshared_tables) = [''A'']
   \<and> ''X'' \<notin> set (node_ids (build_graph unshared_tables))"
  by (simp add: unshared_ids unshared_nodes score_table_keys)
     (simp add: unshared_tables_def)

end
